theory Spec2Isabelle
  imports Complex_Main
begin

section \<open>Data model (project.py)\<close>

datatype ProjectType = PYTHON | NODEJS | RUST | GO | JAVA | PHP | CSHARP | RUBY | UNKNOWN

datatype GitStatus = CLEAN | DIRTY | UNPUSHED | NO_REMOTE

datatype Classification = ACTIVE | WIP | DORMANT | STALE

text \<open>
  A \<^verbatim>\<open>Path\<close> is the list of its components; \<^verbatim>\<open>p / name\<close> is \<open>p @ [name]\<close>.
  A \<^verbatim>\<open>datetime\<close> is a count of microseconds (its resolution), so that
  a \<^verbatim>\<open>timedelta\<close> is a difference of two such counts; a \<open>timestamp\<close> is an
  \<^verbatim>\<open>st_mtime\<close>, counted in microseconds too. Sizes in megabytes are
  Python floats; they are modelled by reals (no rounding, no NaN).
\<close>

type_synonym fspath = "string list"
type_synonym datetime = int
type_synonym timestamp = int

record Project =
  path :: fspath
  name :: string
  has_git :: bool
  git_remote :: "string option"
  git_status :: "GitStatus option"
  readme_path :: "fspath option"
  project_type :: ProjectType
  last_modified :: datetime
  size_mb :: real
  classification :: Classification
  prunable :: bool

section \<open>The file system as the scanner observes it\<close>

text \<open>Exceptions are values. \<open>OSError\<close> stands for the class and its subclasses
  (\<^verbatim>\<open>PermissionError\<close>, \<^verbatim>\<open>FileNotFoundError\<close>); \<open>OtherError\<close> for any exception
  that no handler of the scanner names and that the model has no name for.\<close>

datatype exn = OSError | InvalidGitRepositoryError | GitCommandError | ValueError
  | OverflowError | RecursionError | OtherError

text \<open>
  A node carries the answers of the system calls the scanner makes on it.
  \<^item> \<open>File s\<close>: an entry that is not a directory (a regular file, or a symbolic link
    to one); \<open>s\<close> is the result of \<^verbatim>\<open>stat()\<close>, the pair of \<^verbatim>\<open>st_size\<close> and
    \<^verbatim>\<open>st_mtime\<close>, or \<open>None\<close> when \<^verbatim>\<open>stat()\<close> fails (a dangling link, an entry
    that is gone, an entry of a directory without search permission).
  \<^item> \<open>Dir st r x es\<close>: a real directory; \<open>st\<close> is the \<^verbatim>\<open>st_mtime\<close> of \<^verbatim>\<open>stat()\<close> or
    \<open>None\<close> when it fails; \<open>r\<close> tells whether listing it (\<^verbatim>\<open>os.scandir\<close>) succeeds
    (read permission); \<open>x\<close> tells whether paths through it can be examined (search
    permission); \<open>es\<close> are its entries in the order \<^verbatim>\<open>os.scandir\<close> yields them.
  \<^item> \<open>DirLink\<close>: a symbolic link that resolves to a directory. The scanner and
    \<^verbatim>\<open>os.walk\<close> never follow it, so its target is not recorded; the scan root is
    given resolved.
\<close>

datatype node =
    File "(nat \<times> timestamp) option"
  | Dir "timestamp option" bool bool "(string \<times> node) list"
  | DirLink

fun node_exists :: "node \<Rightarrow> bool" where
  "node_exists (File s) = (s \<noteq> None)"
| "node_exists (Dir st r x es) = (st \<noteq> None)"
| "node_exists DirLink = True"

fun node_is_file :: "node \<Rightarrow> bool" where
  "node_is_file (File s) = (s \<noteq> None)"
| "node_is_file (Dir st r x es) = False"
| "node_is_file DirLink = False"


fun child :: "node \<Rightarrow> string \<Rightarrow> node option" where
  "child (Dir st r x es) n = map_of es n"
| "child (File s) n = None"
| "child DirLink n = None"

text \<open>What is in a directory: an entry of this name that resolves; one that is a
  file; one that is a directory.\<close>

definition has_entry :: "node \<Rightarrow> string \<Rightarrow> bool" where
  "has_entry d n = (case child d n of None \<Rightarrow> False | Some c \<Rightarrow> node_exists c)"

definition has_file :: "node \<Rightarrow> string \<Rightarrow> bool" where
  "has_file d n = (case child d n of None \<Rightarrow> False | Some c \<Rightarrow> node_is_file c)"


fun searchable :: "node \<Rightarrow> bool" where
  "searchable (Dir st r x es) = x"
| "searchable (File s) = True"
| "searchable DirLink = True"

text \<open>
  \<^verbatim>\<open>(d / n).exists()\<close> and \<^verbatim>\<open>(d / n).is_file()\<close> call \<^verbatim>\<open>stat()\<close> and follow links. In
  the pathlib of the Python versions the repository runs on (3.10 to 3.13) they
  answer \<open>False\<close> when \<^verbatim>\<open>stat()\<close> fails with \<^verbatim>\<open>ENOENT\<close>, \<^verbatim>\<open>ENOTDIR\<close>, \<^verbatim>\<open>EBADF\<close> or
  \<^verbatim>\<open>ELOOP\<close> and let every other error through: in a directory without search
  permission \<^verbatim>\<open>stat()\<close> fails with \<^verbatim>\<open>EACCES\<close>, and both raise \<^verbatim>\<open>PermissionError\<close>.
  Below something that is not a directory the error is \<^verbatim>\<open>ENOTDIR\<close>.
\<close>

definition path_exists :: "node \<Rightarrow> string \<Rightarrow> exn + bool" where
  "path_exists d n = (if searchable d then Inr (has_entry d n) else Inl OSError)"

definition path_is_file :: "node \<Rightarrow> string \<Rightarrow> exn + bool" where
  "path_is_file d n = (if searchable d then Inr (has_file d n) else Inl OSError)"

text \<open>Shell-style matching of a name against a pattern; of the wildcards only
  \<^verbatim>\<open>*\<close> is modelled (the source's comment names no other).\<close>

fun fnmatch :: "string \<Rightarrow> string \<Rightarrow> bool" where
  "fnmatch [] [] = True"
| "fnmatch [] (c # cs) = False"
| "fnmatch (p # ps) [] = (p = CHR ''*'' \<and> fnmatch ps [])"
| "fnmatch (p # ps) (c # cs) =
     (if p = CHR ''*'' then fnmatch ps (c # cs) \<or> fnmatch (p # ps) cs
      else p = c \<and> fnmatch ps cs)"

text \<open>\<^verbatim>\<open>project_path.glob(pattern)\<close> for a pattern of one component: the direct
  entries whose names match; nothing when the directory cannot be listed.\<close>

fun glob :: "node \<Rightarrow> string \<Rightarrow> string list" where
  "glob (Dir st r x es) pat = (if r then filter (fnmatch pat) (map fst es) else [])"
| "glob (File s) pat = []"
| "glob DirLink pat = []"

section \<open>Project detection (scanner.py)\<close>

definition PROJECT_TYPE_MARKERS :: "(ProjectType \<times> string list) list" where
  "PROJECT_TYPE_MARKERS =
     [(PYTHON, [''pyproject.toml'', ''setup.py'', ''requirements.txt'']),
      (NODEJS, [''package.json'']),
      (RUST, [''Cargo.toml'']),
      (GO, [''go.mod'']),
      (JAVA, [''pom.xml'', ''build.gradle'']),
      (PHP, [''composer.json'']),
      (CSHARP, [''.csproj'', ''.sln'']),
      (RUBY, [''Gemfile''])]"

definition README_NAMES :: "string list" where
  "README_NAMES =
     [''README.md'', ''README.txt'', ''readme.md'', ''readme.txt'', ''Readme.md'', ''Readme.txt'']"

text \<open>One marker of the inner loop of \<^verbatim>\<open>detect_project_type\<close>: a marker that
  contains \<^verbatim>\<open>*\<close> is globbed, any other is an existence check.\<close>

definition marker_hit :: "node \<Rightarrow> string \<Rightarrow> exn + bool" where
  "marker_hit d marker =
     (if CHR ''*'' \<in> set marker then Inr (glob d marker \<noteq> []) else path_exists d marker)"

fun detect_markers :: "node \<Rightarrow> string list \<Rightarrow> exn + bool" where
  "detect_markers d [] = Inr False"
| "detect_markers d (marker # markers) =
     (case marker_hit d marker of
        Inl e \<Rightarrow> Inl e
      | Inr hit \<Rightarrow> if hit then Inr True else detect_markers d markers)"

fun detect_in :: "node \<Rightarrow> (ProjectType \<times> string list) list \<Rightarrow> exn + ProjectType" where
  "detect_in d [] = Inr UNKNOWN"
| "detect_in d ((ptype, markers) # rest) =
     (case detect_markers d markers of
        Inl e \<Rightarrow> Inl e
      | Inr hit \<Rightarrow> if hit then Inr ptype else detect_in d rest)"

definition detect_project_type :: "node \<Rightarrow> exn + ProjectType" where
  "detect_project_type d = detect_in d PROJECT_TYPE_MARKERS"

definition should_ignore_directory :: "string \<Rightarrow> string list \<Rightarrow> bool" where
  "should_ignore_directory dir_name ignore_patterns = (dir_name \<in> set ignore_patterns)"

text \<open>\<^verbatim>\<open>find_readme\<close> returns the path of the first name of the list that exists and
  is a file; the model returns the name, the path being the directory's with it.\<close>

fun find_readme_in :: "node \<Rightarrow> string list \<Rightarrow> exn + string option" where
  "find_readme_in d [] = Inr None"
| "find_readme_in d (readme_name # rest) =
     (case path_exists d readme_name of
        Inl e \<Rightarrow> Inl e
      | Inr False \<Rightarrow> find_readme_in d rest
      | Inr True \<Rightarrow>
          (case path_is_file d readme_name of
             Inl e \<Rightarrow> Inl e
           | Inr True \<Rightarrow> Inr (Some readme_name)
           | Inr False \<Rightarrow> find_readme_in d rest))"

definition find_readme :: "node \<Rightarrow> exn + string option" where
  "find_readme d = find_readme_in d README_NAMES"

definition is_project_directory :: "node \<Rightarrow> exn + bool" where
  "is_project_directory d =
     (case path_exists d ''.git'' of
        Inl e \<Rightarrow> Inl e
      | Inr True \<Rightarrow> Inr True
      | Inr False \<Rightarrow>
          (case find_readme d of
             Inl e \<Rightarrow> Inl e
           | Inr (Some readme) \<Rightarrow> Inr True
           | Inr None \<Rightarrow>
               (case detect_project_type d of
                  Inl e \<Rightarrow> Inl e
                | Inr ptype \<Rightarrow> Inr (ptype \<noteq> UNKNOWN))))"

section \<open>Classification and pruning (scanner.py)\<close>

definition us_per_day :: int where
  "us_per_day = 86400000000"

text \<open>\<^verbatim>\<open>(datetime.now() - last_modified).days\<close>: a \<^verbatim>\<open>timedelta\<close> is normalised so
  that its \<^verbatim>\<open>days\<close> is the floor of the difference in days. The clock is read
  once and passed in.\<close>

definition age_days :: "datetime \<Rightarrow> datetime \<Rightarrow> int" where
  "age_days now lm = (now - lm) div us_per_day"

definition classify_project :: "datetime \<Rightarrow> datetime \<Rightarrow> bool \<Rightarrow> bool \<Rightarrow> int \<Rightarrow> int \<Rightarrow> Classification" where
  "classify_project now lm has_git_remote has_readme active_threshold dormant_threshold =
     (if age_days now lm \<le> active_threshold then
        (if has_git_remote \<or> has_readme then ACTIVE else WIP)
      else if age_days now lm \<le> dormant_threshold then DORMANT
      else STALE)"

definition is_prunable :: "Classification \<Rightarrow> bool \<Rightarrow> real \<Rightarrow> real \<Rightarrow> real \<Rightarrow> bool" where
  "is_prunable cl has_git_remote sz min_size_mb max_size_mb =
     (if cl \<noteq> STALE then False
      else if has_git_remote then False
      else sz > min_size_mb \<or> sz < max_size_mb)"

section \<open>Version-control inspection (git_utils.py)\<close>

text \<open>
  GitPython is not part of the repository: what its calls answer is a parameter.
  A \<open>Repo\<close> records, for an opened repository, the result of each call that
  \<^verbatim>\<open>get_git_info\<close> makes, every one of which may raise:
  \<^verbatim>\<open>repo.remotes\<close> (each remote's \<^verbatim>\<open>name\<close> and the URLs its \<^verbatim>\<open>urls\<close> iterates),
  \<^verbatim>\<open>repo.is_dirty(untracked_files=True)\<close>, \<^verbatim>\<open>repo.head.is_detached\<close>,
  \<^verbatim>\<open>repo.active_branch.tracking_branch()\<close> and the number of commits of
  \<^verbatim>\<open>repo.iter_commits("tracking..current")\<close>.
\<close>

record Repo =
  remotes :: "exn + (string \<times> (exn + string list)) list"
  is_dirty :: "exn + bool"
  head_is_detached :: "exn + bool"
  tracking_branch :: "exn + string option"
  commits_ahead :: "exn + nat"

text \<open>\<^verbatim>\<open>next(remote.urls, None)\<close>\<close>

fun first_url :: "exn + string list \<Rightarrow> exn + string option" where
  "first_url (Inl e) = Inl e"
| "first_url (Inr []) = Inr None"
| "first_url (Inr (u # us)) = Inr (Some u)"

text \<open>The remote URL: that of \<^verbatim>\<open>origin\<close> when a remote has this name, else that of
  the first remote, else none.\<close>

definition select_remote_url :: "Repo \<Rightarrow> exn + string option" where
  "select_remote_url repo =
     (case remotes repo of
        Inl e \<Rightarrow> Inl e
      | Inr [] \<Rightarrow> Inr None
      | Inr (first_remote # rs) \<Rightarrow>
          (if ''origin'' \<in> set (map fst (first_remote # rs)) then
             (case map_of (first_remote # rs) ''origin'' of
                None \<Rightarrow> Inr None
              | Some urls \<Rightarrow> first_url urls)
           else first_url (snd first_remote)))"

text \<open>The body of the inner \<^verbatim>\<open>try\<close>.\<close>

definition branch_status :: "Repo \<Rightarrow> exn + GitStatus" where
  "branch_status repo =
     (case head_is_detached repo of
        Inl e \<Rightarrow> Inl e
      | Inr True \<Rightarrow> Inr CLEAN
      | Inr False \<Rightarrow>
          (case tracking_branch repo of
             Inl e \<Rightarrow> Inl e
           | Inr None \<Rightarrow> Inr NO_REMOTE
           | Inr (Some tracking) \<Rightarrow>
               (case commits_ahead repo of
                  Inl e \<Rightarrow> Inl e
                | Inr n \<Rightarrow> Inr (if n \<noteq> 0 then UNPUSHED else CLEAN))))"

definition determine_status :: "Repo \<Rightarrow> string option \<Rightarrow> exn + GitStatus" where
  "determine_status repo remote_url =
     (if remote_url = None then Inr NO_REMOTE
      else
        (case is_dirty repo of
           Inl e \<Rightarrow> Inl e
         | Inr True \<Rightarrow> Inr DIRTY
         | Inr False \<Rightarrow>
             (case branch_status repo of
                Inl e \<Rightarrow> (if e = GitCommandError \<or> e = ValueError then Inr CLEAN else Inl e)
              | Inr status \<Rightarrow> Inr status)))"

text \<open>The body of the outer \<^verbatim>\<open>try\<close>; \<open>opened\<close> is what \<^verbatim>\<open>Repo(project_path)\<close> gives.\<close>

definition inspect_repo :: "exn + Repo \<Rightarrow> exn + (bool \<times> string option \<times> GitStatus option)" where
  "inspect_repo opened =
     (case opened of
        Inl e \<Rightarrow> Inl e
      | Inr repo \<Rightarrow>
          (case select_remote_url repo of
             Inl e \<Rightarrow> Inl e
           | Inr remote_url \<Rightarrow>
               (case determine_status repo remote_url of
                  Inl e \<Rightarrow> Inl e
                | Inr status \<Rightarrow> Inr (True, remote_url, Some status))))"

definition get_git_info ::
  "(fspath \<Rightarrow> exn + Repo) \<Rightarrow> fspath \<Rightarrow> node \<Rightarrow> exn + (bool \<times> string option \<times> GitStatus option)" where
  "get_git_info git project_path d =
     (case path_exists d ''.git'' of
        Inl e \<Rightarrow> Inl e
      | Inr False \<Rightarrow> Inr (False, None, None)
      | Inr True \<Rightarrow>
          (case inspect_repo (git project_path) of
             Inl e \<Rightarrow>
               (if e = InvalidGitRepositoryError \<or> e = GitCommandError
                then Inr (True, None, None) else Inl e)
           | Inr info \<Rightarrow> Inr info))"

section \<open>Size and modification time (scanner.py)\<close>

text \<open>
  The interpreter bounds the depth of its stack. A call that recurses once per
  level of directories takes \<open>frames\<close>, the number of levels it can still go down;
  with none left it raises \<^verbatim>\<open>RecursionError\<close>, which no handler of the scanner
  catches. The frames that the calls without recursion need are few and the same
  at every level; they are not counted. How many levels there are depends on the
  recursion limit (1000 by default) and on the depth of the stack of the caller.

  \<^verbatim>\<open>os.walk(path)\<close> with its defaults: errors of listing are ignored (the directory
  yields nothing), links to directories are not followed, the directory comes before
  its subdirectories. In the Python versions before 3.12 it is a generator that
  recurses once per level. Of each triple it yields the model keeps what the two
  callers ask of it: the result of \<^verbatim>\<open>stat()\<close> on the directory, and the results of
  \<^verbatim>\<open>stat()\<close> on its entries that are not directories. A walk is the list of its
  steps; a consumer stops at the first \<open>Raise\<close>.
\<close>

datatype walk_step = Yield "timestamp option" "(nat \<times> timestamp) option list" | Raise exn

fun filenames :: "(string \<times> node) list \<Rightarrow> (nat \<times> timestamp) option list" where
  "filenames [] = []"
| "filenames ((n, File s) # es) = s # filenames es"
| "filenames ((n, Dir st r x sub) # es) = filenames es"
| "filenames ((n, DirLink) # es) = filenames es"

fun os_walk :: "nat \<Rightarrow> node \<Rightarrow> walk_step list"
  and os_walk_dirs :: "nat \<Rightarrow> (string \<times> node) list \<Rightarrow> walk_step list"
where
  "os_walk frames (Dir st r x es) =
     (if frames = 0 then [Raise RecursionError]
      else if r then Yield st (filenames es) # os_walk_dirs (frames - 1) es else [])"
| "os_walk frames (File s) = (if frames = 0 then [Raise RecursionError] else [])"
| "os_walk frames DirLink = (if frames = 0 then [Raise RecursionError] else [])"
| "os_walk_dirs frames [] = []"
| "os_walk_dirs frames ((n, Dir st r x sub) # es) =
     os_walk frames (Dir st r x sub) @ os_walk_dirs frames es"
| "os_walk_dirs frames ((n, File s) # es) = os_walk_dirs frames es"
| "os_walk_dirs frames ((n, DirLink) # es) = os_walk_dirs frames es"

fun add_sizes :: "(nat \<times> timestamp) option list \<Rightarrow> nat \<Rightarrow> nat" where
  "add_sizes [] total_size = total_size"
| "add_sizes (None # fs) total_size = add_sizes fs total_size"
| "add_sizes (Some (sz, m) # fs) total_size = add_sizes fs (total_size + sz)"

text \<open>The loop of \<^verbatim>\<open>get_directory_size\<close> inside its \<^verbatim>\<open>try\<close>, whose handler returns
  \<^verbatim>\<open>0.0\<close> for an \<open>OSError\<close> and lets any other exception through.\<close>

fun walk_sizes :: "walk_step list \<Rightarrow> nat \<Rightarrow> exn + nat" where
  "walk_sizes [] total_size = Inr total_size"
| "walk_sizes (Yield st fs # rest) total_size = walk_sizes rest (add_sizes fs total_size)"
| "walk_sizes (Raise e # rest) total_size = (if e = OSError then Inr 0 else Inl e)"

definition get_directory_size :: "nat \<Rightarrow> node \<Rightarrow> exn + real" where
  "get_directory_size frames d =
     (case walk_sizes (os_walk frames d) 0 of
        Inl e \<Rightarrow> Inl e
      | Inr total_size \<Rightarrow> Inr (real total_size / (1024 * 1024)))"

fun stat_mtime :: "node \<Rightarrow> timestamp option" where
  "stat_mtime (File s) = map_option snd s"
| "stat_mtime (Dir st r x es) = st"
| "stat_mtime DirLink = None"

text \<open>
  \<^verbatim>\<open>datetime.fromtimestamp(t)\<close>, as CPython 3.11 answers on Linux with the local
  time zone UTC. A \<^verbatim>\<open>datetime\<close> holds the years 1 to 9999 (the search for a
  repeated hour of local time looks one day back, so that the first day is out of
  reach); outside of them the call raises \<^verbatim>\<open>ValueError\<close>; where the year does not
  fit the \<^verbatim>\<open>int\<close> of the C library, \<^verbatim>\<open>localtime\<close> fails and the call raises
  \<open>OSError\<close>; outside of the 64 bits of \<^verbatim>\<open>time_t\<close> it raises \<^verbatim>\<open>OverflowError\<close>.
\<close>

definition fromtimestamp :: "timestamp \<Rightarrow> exn + datetime" where
  "fromtimestamp t =
     (let seconds = t div 1000000 in
      if - 62135510400 \<le> seconds \<and> seconds \<le> 253402300799 then Inr t
      else if - 67768040609740800 \<le> seconds \<and> seconds \<le> 67768036191676799 then Inl ValueError
      else if - 9223372036854775808 \<le> seconds \<and> seconds \<le> 9223372036854775807 then Inl OSError
      else Inl OverflowError)"

text \<open>The loop over the files of one directory: the handler around each file
  passes over an \<open>OSError\<close>; any other exception leaves the function.\<close>

fun newest_file :: "(nat \<times> timestamp) option list \<Rightarrow> datetime \<Rightarrow> exn + datetime" where
  "newest_file [] most_recent = Inr most_recent"
| "newest_file (None # fs) most_recent = newest_file fs most_recent"
| "newest_file (Some (sz, mtime) # fs) most_recent =
     (case fromtimestamp mtime of
        Inl e \<Rightarrow> (if e = OSError then newest_file fs most_recent else Inl e)
      | Inr file_mtime \<Rightarrow>
          newest_file fs (if file_mtime > most_recent then file_mtime else most_recent))"

text \<open>The loop over the walk: when the time of a directory cannot be had
  (\<open>OSError\<close>) the \<^verbatim>\<open>continue\<close> passes over its files too. The handler around the
  loop returns the time reached for an \<open>OSError\<close> of the walk.\<close>

fun newest_walk :: "walk_step list \<Rightarrow> datetime \<Rightarrow> exn + datetime" where
  "newest_walk [] most_recent = Inr most_recent"
| "newest_walk (Raise e # rest) most_recent = (if e = OSError then Inr most_recent else Inl e)"
| "newest_walk (Yield None fs # rest) most_recent = newest_walk rest most_recent"
| "newest_walk (Yield (Some mtime) fs # rest) most_recent =
     (case fromtimestamp mtime of
        Inl e \<Rightarrow> (if e = OSError then newest_walk rest most_recent else Inl e)
      | Inr dir_mtime \<Rightarrow>
          (case newest_file fs (if dir_mtime > most_recent then dir_mtime else most_recent) of
             Inl e \<Rightarrow> Inl e
           | Inr newest \<Rightarrow> newest_walk rest newest))"

text \<open>The first statement of \<^verbatim>\<open>get_last_modified\<close> stands outside the \<^verbatim>\<open>try\<close>:
  when its \<^verbatim>\<open>path.stat()\<close> or its conversion fails the function raises.\<close>

definition get_last_modified :: "nat \<Rightarrow> node \<Rightarrow> exn + datetime" where
  "get_last_modified frames d =
     (case stat_mtime d of
        None \<Rightarrow> Inl OSError
      | Some mtime \<Rightarrow>
          (case fromtimestamp mtime of
             Inl e \<Rightarrow> Inl e
           | Inr most_recent \<Rightarrow> newest_walk (os_walk frames d) most_recent))"

section \<open>The scan (scanner.py)\<close>

text \<open>
  The arguments of \<^verbatim>\<open>scan_for_projects\<close> that every recursive call passes on
  unchanged, together with the two things the scan reads from outside: the clock
  (\<^verbatim>\<open>datetime.now()\<close>) and GitPython's \<^verbatim>\<open>Repo(path)\<close>. A call of the progress
  callback returns a value or raises; what it does is taken to depend on its
  arguments only (a scan calls it at most once for a path).
\<close>

record 'r scan_env =
  ignore_patterns :: "string list"
  active_threshold :: int
  dormant_threshold :: int
  prunable_min_size_mb :: real
  prunable_max_size_mb :: real
  progress_callback :: "(fspath \<Rightarrow> nat \<Rightarrow> exn + 'r) option"
  clock :: datetime
  open_repo :: "fspath \<Rightarrow> exn + Repo"

text \<open>
  What a scan does is recorded as a trace: a call of \<^verbatim>\<open>is_project_directory\<close>
  (\<open>Evaluated\<close>), a call of the progress callback with its two arguments
  (\<open>Callback\<close>), a \<^verbatim>\<open>projects.append\<close> (\<open>Found\<close>) and a call of \<^verbatim>\<open>os.scandir\<close>
  (\<open>Scandir\<close>), which opens every call of \<^verbatim>\<open>scan_for_projects\<close>.
\<close>

datatype event = Evaluated fspath | Callback fspath nat | Found fspath | Scandir fspath

text \<open>\<^verbatim>\<open>if progress_callback: progress_callback(p, n)\<close>: the call is a statement, what
  the callback returns is dropped; an exception it raises goes on to the caller.\<close>

definition notify :: "'r scan_env \<Rightarrow> fspath \<Rightarrow> nat \<Rightarrow> exn option \<times> event list" where
  "notify c p n =
     (case progress_callback c of
        None \<Rightarrow> (None, [])
      | Some cb \<Rightarrow>
          (case cb p n of
             Inl e \<Rightarrow> (Some e, [Callback p n])
           | Inr returned \<Rightarrow> (None, [Callback p n])))"

text \<open>\<^verbatim>\<open>Path.name\<close>: the last component, empty for a path without one.\<close>

definition path_name :: "fspath \<Rightarrow> string" where
  "path_name p = (if p = [] then [] else last p)"

text \<open>The block that extracts the metadata of a detected project and builds its
  record; the source has it twice, for the scan root and for a subdirectory.\<close>

definition make_project :: "'r scan_env \<Rightarrow> nat \<Rightarrow> fspath \<Rightarrow> string \<Rightarrow> node \<Rightarrow> exn + Project" where
  "make_project c frames p nm d =
     (case get_git_info (open_repo c) p d of
        Inl e \<Rightarrow> Inl e
      | Inr (hg, remote, status) \<Rightarrow>
          (case find_readme d of
             Inl e \<Rightarrow> Inl e
           | Inr readme \<Rightarrow>
               (case detect_project_type d of
                  Inl e \<Rightarrow> Inl e
                | Inr ptype \<Rightarrow>
                    (case get_last_modified frames d of
                       Inl e \<Rightarrow> Inl e
                     | Inr lm \<Rightarrow>
                         (case get_directory_size frames d of
                            Inl e \<Rightarrow> Inl e
                          | Inr sz \<Rightarrow>
                              (let cl = classify_project (clock c) lm (remote \<noteq> None)
                                          (readme \<noteq> None) (active_threshold c)
                                          (dormant_threshold c);
                                   pr = is_prunable cl (remote \<noteq> None) sz
                                          (prunable_min_size_mb c) (prunable_max_size_mb c)
                               in Inr \<lparr>path = p, name = nm, has_git = hg, git_remote = remote,
                                        git_status = status,
                                        readme_path = map_option (\<lambda>n. p @ [n]) readme,
                                        project_type = ptype, last_modified = lm,
                                        size_mb = sz, classification = cl, prunable = pr\<rparr>))))))"

text \<open>The first part of \<^verbatim>\<open>scan_for_projects\<close>, before the \<^verbatim>\<open>try\<close>: the scan path
  itself, on the initial call only. An exception here leaves the function.\<close>

definition scan_root ::
  "'r scan_env \<Rightarrow> nat \<Rightarrow> fspath \<Rightarrow> node \<Rightarrow> bool \<Rightarrow> (exn + Project list) \<times> event list" where
  "scan_root c frames p d check_root =
     (if check_root then
        (case is_project_directory d of
           Inl e \<Rightarrow> (Inl e, [Evaluated p])
         | Inr False \<Rightarrow> (Inr [], [Evaluated p])
         | Inr True \<Rightarrow>
             (case notify c p 0 of
                (Some e, tr) \<Rightarrow> (Inl e, Evaluated p # tr)
              | (None, tr) \<Rightarrow>
                  (case make_project c frames p (path_name p) d of
                     Inl e \<Rightarrow> (Inl e, Evaluated p # tr)
                   | Inr project \<Rightarrow> (Inr [project], Evaluated p # tr @ [Found p]))))
      else (Inr [], []))"

text \<open>
  The head of the loop body, for a subdirectory that is not ignored: the progress
  report with the number of projects in the list, the test, and for a project the
  extraction of its metadata. It gives the projects to append (none or one).
\<close>

definition scan_child ::
  "'r scan_env \<Rightarrow> nat \<Rightarrow> fspath \<Rightarrow> string \<Rightarrow> node \<Rightarrow> nat \<Rightarrow> (exn + Project list) \<times> event list" where
  "scan_child c frames dir_path dir_name d n =
     (case notify c dir_path n of
        (Some e, tr) \<Rightarrow> (Inl e, tr)
      | (None, tr) \<Rightarrow>
          (case is_project_directory d of
             Inl e \<Rightarrow> (Inl e, tr @ [Evaluated dir_path])
           | Inr False \<Rightarrow> (Inr [], tr @ [Evaluated dir_path])
           | Inr True \<Rightarrow>
               (case make_project c frames dir_path dir_name d of
                  Inl e \<Rightarrow> (Inl e, tr @ [Evaluated dir_path])
                | Inr project \<Rightarrow>
                    (Inr [project], tr @ [Evaluated dir_path, Found dir_path]))))"

text \<open>
  The second part: the loop over \<^verbatim>\<open>os.scandir(scan_path)\<close> inside the \<^verbatim>\<open>try\<close>.
  \<open>scan_entries\<close> is the loop, with the list \<^verbatim>\<open>projects\<close> as it stands; it returns
  the exception that ended it, if any, and the list as it stood then. The handler
  swallows an \<open>OSError\<close> and returns the list; any other exception leaves the call.
  An entry that is not a real directory (\<^verbatim>\<open>is_dir(follow_symlinks=False)\<close>) is
  passed over. The function calls itself once per level of directories: a call
  with no frame left raises \<^verbatim>\<open>RecursionError\<close>, and what a call calls has one frame
  less.
\<close>

fun scan_for_projects ::
    "'r scan_env \<Rightarrow> nat \<Rightarrow> fspath \<Rightarrow> node \<Rightarrow> bool \<Rightarrow> (exn + Project list) \<times> event list"
  and scan_entries ::
    "'r scan_env \<Rightarrow> nat \<Rightarrow> fspath \<Rightarrow> (string \<times> node) list \<Rightarrow> Project list \<Rightarrow>
       (exn option \<times> Project list) \<times> event list"
where
  "scan_for_projects c frames p (Dir st r x es) check_root =
     (if frames = 0 then (Inl RecursionError, [])
      else
        (case scan_root c (frames - 1) p (Dir st r x es) check_root of
           (Inl e, tr) \<Rightarrow> (Inl e, tr)
         | (Inr projects, tr) \<Rightarrow>
             (if r then
                (case scan_entries c (frames - 1) p es projects of
                   ((None, ps), tr') \<Rightarrow> (Inr ps, tr @ Scandir p # tr')
                 | ((Some e, ps), tr') \<Rightarrow>
                     (if e = OSError then Inr ps else Inl e, tr @ Scandir p # tr'))
              else (Inr projects, tr @ [Scandir p]))))"
| "scan_for_projects c frames p (File s) check_root =
     (if frames = 0 then (Inl RecursionError, [])
      else
        (case scan_root c (frames - 1) p (File s) check_root of
           (Inl e, tr) \<Rightarrow> (Inl e, tr)
         | (Inr projects, tr) \<Rightarrow> (Inr projects, tr @ [Scandir p])))"
| "scan_for_projects c frames p DirLink check_root =
     (if frames = 0 then (Inl RecursionError, [])
      else
        (case scan_root c (frames - 1) p DirLink check_root of
           (Inl e, tr) \<Rightarrow> (Inl e, tr)
         | (Inr projects, tr) \<Rightarrow> (Inr projects, tr @ [Scandir p])))"
| "scan_entries c frames p [] projects = ((None, projects), [])"
| "scan_entries c frames p ((dir_name, File s) # rest) projects =
     scan_entries c frames p rest projects"
| "scan_entries c frames p ((dir_name, DirLink) # rest) projects =
     scan_entries c frames p rest projects"
| "scan_entries c frames p ((dir_name, Dir st r x es) # rest) projects =
     (if should_ignore_directory dir_name (ignore_patterns c)
      then scan_entries c frames p rest projects
      else
        (case scan_child c frames (p @ [dir_name]) dir_name (Dir st r x es) (length projects) of
           (Inl e, tr0) \<Rightarrow> ((Some e, projects), tr0)
         | (Inr found, tr0) \<Rightarrow>
             (case scan_for_projects c frames (p @ [dir_name]) (Dir st r x es) False of
                (Inl e, tr1) \<Rightarrow> ((Some e, projects @ found), tr0 @ tr1)
              | (Inr sub_projects, tr1) \<Rightarrow>
                  (case scan_entries c frames p rest (projects @ found @ sub_projects) of
                     (res, tr2) \<Rightarrow> (res, tr0 @ tr1 @ tr2)))))"

section \<open>What the specification says of the walk\<close>

text \<open>A time of modification is convertible when it lies in the years that a
  \<^verbatim>\<open>datetime\<close> holds.\<close>

definition convertible :: "timestamp \<Rightarrow> bool" where
  "convertible t = (fromtimestamp t = Inr t)"

text \<open>
  A tree is accessible when every directory in it can be examined (\<^verbatim>\<open>stat()\<close> on
  it succeeds and it has search permission) and every time of modification that
  \<^verbatim>\<open>stat()\<close> gives in it is convertible. A directory may still be impossible to
  list, and \<^verbatim>\<open>stat()\<close> may fail on a file.
\<close>

fun accessible :: "node \<Rightarrow> bool"
  and accessible_entries :: "(string \<times> node) list \<Rightarrow> bool"
where
  "accessible (File s) = (case s of None \<Rightarrow> True | Some (sz, mtime) \<Rightarrow> convertible mtime)"
| "accessible DirLink = True"
| "accessible (Dir st r x es) =
     ((case st of None \<Rightarrow> False | Some mtime \<Rightarrow> convertible mtime) \<and> x \<and>
      accessible_entries es)"
| "accessible_entries [] = True"
| "accessible_entries ((n, c) # es) = (accessible c \<and> accessible_entries es)"

text \<open>The number of levels of directories of a tree, links not followed: what a
  recursion over it needs of the stack at most.\<close>

fun nesting :: "node \<Rightarrow> nat"
  and nesting_entries :: "(string \<times> node) list \<Rightarrow> nat"
where
  "nesting (File s) = 1"
| "nesting DirLink = 1"
| "nesting (Dir st r x es) = Suc (nesting_entries es)"
| "nesting_entries [] = 0"
| "nesting_entries ((n, Dir st r x sub) # es) =
     max (nesting (Dir st r x sub)) (nesting_entries es)"
| "nesting_entries ((n, File s) # es) = nesting_entries es"
| "nesting_entries ((n, DirLink) # es) = nesting_entries es"

text \<open>
  The walk in the specification's words: depth first, in pre-order, over real
  directories only; a directory whose name is an ignore pattern is neither
  evaluated nor descended into; every other child directory is evaluated and
  recursed into; a directory that cannot be read ends its own subtree only.
  \<open>spec_walk ign p d\<close> lists, in the order of the visit, the directories below the
  scan root \<open>d\<close> (at path \<open>p\<close>) that the walk reaches, each with its path.
\<close>

fun spec_walk :: "string list \<Rightarrow> fspath \<Rightarrow> node \<Rightarrow> (fspath \<times> node) list"
  and spec_walk_entries :: "string list \<Rightarrow> fspath \<Rightarrow> (string \<times> node) list \<Rightarrow> (fspath \<times> node) list"
where
  "spec_walk ign p (Dir st r x es) = (if r then spec_walk_entries ign p es else [])"
| "spec_walk ign p (File s) = []"
| "spec_walk ign p DirLink = []"
| "spec_walk_entries ign p [] = []"
| "spec_walk_entries ign p ((n, Dir st r x es) # rest) =
     (if n \<in> set ign then spec_walk_entries ign p rest
      else (p @ [n], Dir st r x es) # spec_walk ign (p @ [n]) (Dir st r x es) @
             spec_walk_entries ign p rest)"
| "spec_walk_entries ign p ((n, File s) # rest) = spec_walk_entries ign p rest"
| "spec_walk_entries ign p ((n, DirLink) # rest) = spec_walk_entries ign p rest"

text \<open>Projections of a trace.\<close>

fun evaluated_paths :: "event list \<Rightarrow> fspath list" where
  "evaluated_paths [] = []"
| "evaluated_paths (Evaluated p # tr) = p # evaluated_paths tr"
| "evaluated_paths (ev # tr) = evaluated_paths tr"

fun scandir_paths :: "event list \<Rightarrow> fspath list" where
  "scandir_paths [] = []"
| "scandir_paths (Scandir p # tr) = p # scandir_paths tr"
| "scandir_paths (ev # tr) = scandir_paths tr"

fun callbacks :: "event list \<Rightarrow> (fspath \<times> nat) list" where
  "callbacks [] = []"
| "callbacks (Callback p n # tr) = (p, n) # callbacks tr"
| "callbacks (ev # tr) = callbacks tr"

fun found_paths :: "event list \<Rightarrow> fspath list" where
  "found_paths [] = []"
| "found_paths (Found p # tr) = p # found_paths tr"
| "found_paths (ev # tr) = found_paths tr"

fun event_path :: "event \<Rightarrow> fspath" where
  "event_path (Evaluated p) = p"
| "event_path (Callback p n) = p"
| "event_path (Found p) = p"
| "event_path (Scandir p) = p"



definition vcs_marker :: "node \<Rightarrow> bool" where
  "vcs_marker d = has_entry d ''.git''"

definition readme_present :: "node \<Rightarrow> bool" where
  "readme_present d = (\<exists>n \<in> set README_NAMES. has_entry d n \<and> has_file d n)"

definition marker_present :: "node \<Rightarrow> string \<Rightarrow> bool" where
  "marker_present d marker =
     (if CHR ''*'' \<in> set marker then glob d marker \<noteq> [] else has_entry d marker)"

definition table_hit :: "(ProjectType \<times> string list) list \<Rightarrow> node \<Rightarrow> bool" where
  "table_hit tbl d = (\<exists>entry \<in> set tbl. \<exists>marker \<in> set (snd entry). marker_present d marker)"




text \<open>A project of the result was made from a directory of a walk when the walk
  holds its path with a node that is a project directory and of which
  \<open>make_project\<close> gives this record.\<close>

definition made :: "'r scan_env \<Rightarrow> (fspath \<times> node) list \<Rightarrow> Project \<Rightarrow> bool" where
  "made c walk pr =
     (\<exists>nd frames. (path pr, nd) \<in> set walk \<and> is_project_directory nd = Inr True \<and>
           make_project c frames (path pr) (name pr) nd = Inr pr)"

text \<open>
  Inspection is quiet when every exception that the inspection of a repository
  raises is one that \<^verbatim>\<open>get_git_info\<close> handles: then it returns for every path.
\<close>

definition inspection_quiet :: "'r scan_env \<Rightarrow> bool" where
  "inspection_quiet c =
     (\<forall>q e. inspect_repo (open_repo c q) = Inl e \<longrightarrow>
            e = InvalidGitRepositoryError \<or> e = GitCommandError)"

text \<open>The callback is quiet when no call of it raises.\<close>

definition callback_quiet :: "'r scan_env \<Rightarrow> bool" where
  "callback_quiet c =
     (case progress_callback c of
        None \<Rightarrow> True
      | Some cb \<Rightarrow> (\<forall>q n. \<exists>returned. cb q n = Inr returned))"

text \<open>The paths of the project directories of a walk, in its order.\<close>

definition walk_projects :: "(fspath \<times> node) list \<Rightarrow> fspath list" where
  "walk_projects w = map fst (filter (\<lambda>x. is_project_directory (snd x) = Inr True) w)"

text \<open>Every progress report of a trace carries the number of projects found
  before it, as the specification has it: \<open>counts_found_so_far tr k\<close> runs through
  the trace \<open>tr\<close>, \<open>k\<close> projects having been found before it.\<close>

fun counts_found_so_far :: "event list \<Rightarrow> nat \<Rightarrow> bool" where
  "counts_found_so_far [] k = True"
| "counts_found_so_far (Found q # tr) k = counts_found_so_far tr (Suc k)"
| "counts_found_so_far (Callback q n # tr) k = (n = k \<and> counts_found_so_far tr k)"
| "counts_found_so_far (Evaluated q # tr) k = counts_found_so_far tr k"
| "counts_found_so_far (Scandir q # tr) k = counts_found_so_far tr k"

section \<open>Trees to run the scan on\<close>

text \<open>
  A documentation repository at \<^verbatim>\<open>/srv/node_modules\<close> with a library in it, a directory
  of dependencies that the scan is told to ignore, a directory that can be searched
  but not listed, and a git worktree whose repository cannot be opened.
\<close>

definition demo_env :: "unit scan_env" where
  "demo_env = \<lparr>ignore_patterns = [''node_modules''], active_threshold = 30,
     dormant_threshold = 180, prunable_min_size_mb = 10, prunable_max_size_mb = 1,
     progress_callback = Some (\<lambda>p n. Inr ()), clock = 0,
     open_repo = (\<lambda>p. Inl InvalidGitRepositoryError)\<rparr>"

definition demo_tree :: node where
  "demo_tree = Dir (Some 5) True True
     [(''README.md'', File (Some (120, 7))),
      (''lib'', Dir (Some 3) True True [(''setup.py'', File (Some (40, 9)))]),
      (''node_modules'', Dir (Some 4) True True
         [(''package.json'', File (Some (10, 2))),
          (''dep'', Dir (Some 1) True True [(''README.md'', File (Some (1, 1)))])]),
      (''locked'', Dir (Some 2) False True [(''README.md'', File (Some (1, 1)))]),
      (''notes'', Dir (Some 6) True True [(''.git'', File (Some (30, 4)))])]"

definition demo_path :: fspath where
  "demo_path = [''srv'', ''node_modules'']"

text \<open>The levels that a recursion limit of 1000 leaves to a scan whose caller is
  ten frames deep.\<close>

definition demo_frames :: nat where
  "demo_frames = 990"

definition demo_repo :: Repo where
  "demo_repo = \<lparr>remotes = Inr [], is_dirty = Inr False, head_is_detached = Inr False,
     tracking_branch = Inr None, commits_ahead = Inr 0\<rparr>"

text \<open>A directory that is not itself a project, with a project in it that has a
  subdirectory.\<close>

definition plain_tree :: node where
  "plain_tree = Dir (Some 1) True True
     [(''a'', Dir (Some 2) True True
        [(''README.md'', File (Some (1, 1))), (''b'', Dir (Some 3) True True [])])]"

text \<open>A directory with two subdirectories: \<^verbatim>\<open>private\<close>, of mode 000 (it can be neither
  listed nor searched), and after it in the listing \<^verbatim>\<open>work\<close>, a project.\<close>

definition guarded_tree :: node where
  "guarded_tree = Dir (Some 1) True True
     [(''private'', Dir (Some 2) False False []),
      (''work'', Dir (Some 3) True True [(''README.md'', File (Some (1, 1)))])]"

section \<open>Detection\<close>

text \<open>In a directory that can be searched the tests return, and say what is in
  the directory; in one that cannot, the first existence test raises.\<close>

lemma detect_markers_searchable:
  "searchable d \<Longrightarrow> detect_markers d ms = Inr (\<exists>m \<in> set ms. marker_present d m)"
  by (induction ms) (auto simp: marker_hit_def marker_present_def path_exists_def)

lemma detect_in_searchable:
  "searchable d \<Longrightarrow>
     detect_in d tbl =
       Inr (case List.find (\<lambda>entry. \<exists>m \<in> set (snd entry). marker_present d m) tbl of
              None \<Rightarrow> UNKNOWN | Some entry \<Rightarrow> fst entry)"
  by (induction tbl) (auto simp: detect_markers_searchable)

lemma find_readme_in_searchable:
  "searchable d \<Longrightarrow>
     find_readme_in d ns = Inr (List.find (\<lambda>n. has_entry d n \<and> has_file d n) ns)"
  by (induction ns) (auto simp: path_exists_def path_is_file_def split: bool.splits)

lemma markers_known: "UNKNOWN \<notin> fst ` set PROJECT_TYPE_MARKERS"
  by (simp add: PROJECT_TYPE_MARKERS_def)

lemma detect_project_type_searchable:
  assumes "searchable d"
  shows "\<exists>t. detect_project_type d = Inr t \<and> (t \<noteq> UNKNOWN) = table_hit PROJECT_TYPE_MARKERS d"
proof (cases "List.find (\<lambda>entry. \<exists>m \<in> set (snd entry). marker_present d m) PROJECT_TYPE_MARKERS")
  case None
  then have "\<not> table_hit PROJECT_TYPE_MARKERS d"
    unfolding table_hit_def by (auto simp: find_None_iff)
  with None detect_in_searchable [OF assms, of PROJECT_TYPE_MARKERS] show ?thesis
    by (simp add: detect_project_type_def)
next
  case (Some entry)
  then have mem: "entry \<in> set PROJECT_TYPE_MARKERS"
    and hit: "\<exists>m \<in> set (snd entry). marker_present d m"
    by (auto simp: find_Some_iff)
  then have "table_hit PROJECT_TYPE_MARKERS d" unfolding table_hit_def by blast
  moreover from mem markers_known have "fst entry \<noteq> UNKNOWN" by force
  ultimately show ?thesis
    using Some detect_in_searchable [OF assms, of PROJECT_TYPE_MARKERS]
    by (simp add: detect_project_type_def)
qed

lemma find_readme_searchable:
  assumes "searchable d"
  shows "\<exists>r. find_readme d = Inr r \<and> (r \<noteq> None) = readme_present d"
proof -
  have "(List.find (\<lambda>n. has_entry d n \<and> has_file d n) README_NAMES \<noteq> None) = readme_present d"
    unfolding readme_present_def by (auto simp: find_None_iff)
  with find_readme_in_searchable [OF assms, of README_NAMES] show ?thesis
    by (simp add: find_readme_def)
qed

text \<open>The table is tried in its order: a directory with \<^verbatim>\<open>setup.py\<close> and
  \<^verbatim>\<open>package.json\<close> is a Python project, whatever the order of its entries.\<close>

lemma python_before_nodejs:
  "searchable d \<Longrightarrow> has_entry d ''setup.py'' \<Longrightarrow> detect_project_type d = Inr PYTHON"
  by (simp add: detect_project_type_def PROJECT_TYPE_MARKERS_def marker_hit_def path_exists_def)

text \<open>
  C1. The claim has the C\# markers as the glob patterns \<^verbatim>\<open>*.csproj\<close> and \<^verbatim>\<open>*.sln\<close>, so
  that a directory whose only marker is \<^verbatim>\<open>MyApp.csproj\<close> is a C\# project. The
  table of the source holds \<^verbatim>\<open>.csproj\<close> and \<^verbatim>\<open>.sln\<close>, without the star: the branch
  of \<^verbatim>\<open>detect_project_type\<close> that globs is never taken, the two markers are looked
  up as file names, and the directory is of unknown type, although the pattern
  that the source's comment names would match it.
\<close>

theorem csharp_marker_never_globbed:
  "detect_project_type (Dir (Some 0) True True [(''MyApp.csproj'', File (Some (1, 0)))])
     = Inr UNKNOWN
   \<and> marker_present (Dir (Some 0) True True [(''MyApp.csproj'', File (Some (1, 0)))]) ''*.csproj''"
  by (simp add: detect_project_type_def PROJECT_TYPE_MARKERS_def marker_hit_def path_exists_def
      has_entry_def marker_present_def)

lemma is_project_directory_searchable:
  assumes "searchable d"
  shows "is_project_directory d =
           Inr (vcs_marker d \<or> readme_present d \<or> table_hit PROJECT_TYPE_MARKERS d)"
proof -
  from find_readme_searchable [OF assms] obtain r where
    r: "find_readme d = Inr r" "(r \<noteq> None) = readme_present d" by blast
  from detect_project_type_searchable [OF assms] obtain t where
    t: "detect_project_type d = Inr t" "(t \<noteq> UNKNOWN) = table_hit PROJECT_TYPE_MARKERS d"
    by blast
  show ?thesis
  proof (cases "has_entry d ''.git''")
    case git: True
    with assms show ?thesis
      by (simp add: is_project_directory_def path_exists_def vcs_marker_def)
  next
    case git: False
    show ?thesis
    proof (cases r)
      case None
      with assms git r t show ?thesis
        by (simp add: is_project_directory_def path_exists_def vcs_marker_def)
    next
      case (Some nm)
      with assms git r t show ?thesis
        by (simp add: is_project_directory_def path_exists_def vcs_marker_def)
    qed
  qed
qed

lemma is_project_directory_unsearchable:
  "\<not> searchable d \<Longrightarrow> is_project_directory d = Inl OSError"
  by (simp add: is_project_directory_def path_exists_def)







section \<open>Classification and pruning\<close>

text \<open>
  C2. \<^verbatim>\<open>is_prunable\<close> is false unless the classification is stale, false when the
  project has a remote, and otherwise true exactly when the size is above the large
  threshold (the parameter \<^verbatim>\<open>min_size_mb\<close>) or below the tiny one (\<^verbatim>\<open>max_size_mb\<close>).
\<close>

theorem is_prunable_iff:
  "is_prunable cl has_remote sz large tiny = (cl = STALE \<and> \<not> has_remote \<and> (sz > large \<or> sz < tiny))"
  by (simp add: is_prunable_def)

text \<open>The examples of the specification.\<close>

lemma is_prunable_examples:
  "is_prunable STALE False 15 10 1"
  "\<not> is_prunable STALE False 5 10 1"
  "\<not> is_prunable STALE True 15 10 1"
  "\<not> is_prunable ACTIVE False 15 10 1"
  by (simp_all add: is_prunable_def)

text \<open>
  C3 as stated, for every pair of thresholds: stale whenever the age is above the
  dormant threshold. With an active threshold of 30 days and a dormant threshold of
  10, a project 20 days old with a remote is above the dormant threshold and is
  classified active: the test against the active threshold comes first.
\<close>

theorem classify_stale_counterexample:
  "\<not> (age_days (20 * us_per_day) 0 > 10 \<longrightarrow>
        classify_project (20 * us_per_day) 0 True False 30 10 = STALE)"
  by (simp add: classify_project_def age_days_def us_per_day_def)

lemma age_days_floor:
  "age_days now lm * us_per_day \<le> now - lm \<and> now - lm < (age_days now lm + 1) * us_per_day"
proof -
  have pos: "0 < us_per_day" by (simp add: us_per_day_def)
  define q where "q = (now - lm) div us_per_day"
  define m where "m = (now - lm) mod us_per_day"
  have split: "now - lm = q * us_per_day + m"
    by (simp add: q_def m_def)
  have lo: "0 \<le> m" using pos by (simp add: m_def)
  have hi: "m < us_per_day" using pos by (simp add: m_def)
  have "q * us_per_day \<le> now - lm" using split lo by linarith
  moreover have "now - lm < (q + 1) * us_per_day"
    using split hi by (simp add: distrib_right)
  ultimately show ?thesis by (simp add: age_days_def q_def)
qed

text \<open>
  C3, amended: the age is the floor of the difference in days; the result is active
  when the age is at most the active threshold and the project has a remote or a
  README, work in progress when the age is at most the active threshold and it has
  neither, dormant when the age is above the active threshold and at most the
  dormant one, and stale when the age is above both thresholds.
\<close>

theorem classify_project_cases:
  "age_days now lm * us_per_day \<le> now - lm \<and> now - lm < (age_days now lm + 1) * us_per_day \<and>
   (classify_project now lm has_remote has_readme a d = ACTIVE) =
      (age_days now lm \<le> a \<and> (has_remote \<or> has_readme)) \<and>
   (classify_project now lm has_remote has_readme a d = WIP) =
      (age_days now lm \<le> a \<and> \<not> has_remote \<and> \<not> has_readme) \<and>
   (classify_project now lm has_remote has_readme a d = DORMANT) =
      (a < age_days now lm \<and> age_days now lm \<le> d) \<and>
   (classify_project now lm has_remote has_readme a d = STALE) =
      (a < age_days now lm \<and> d < age_days now lm)"
  using age_days_floor [of now lm] by (auto simp add: classify_project_def)

section \<open>Reasoning about the scan\<close>

text \<open>Induction over a tree and the entries of a directory, and the ways a call of
  the two functions of the scan can go.\<close>

lemma node_entries_induct [case_names File DirLink Dir Nil Cons]:
  assumes "\<And>s. P (File s)" and "P DirLink" and "\<And>st r sx es. Q es \<Longrightarrow> P (Dir st r sx es)"
    and "Q []" and "\<And>n d es. P d \<Longrightarrow> Q es \<Longrightarrow> Q ((n, d) # es)"
  shows "P d" and "Q es"
proof -
  have lift: "(\<And>e. e \<in> set es \<Longrightarrow> P (snd e)) \<Longrightarrow> Q es" for es
  proof (induction es)
    case Nil
    show ?case by (rule assms(4))
  next
    case (Cons e es)
    have "P (snd e)" using Cons.prems by simp
    moreover have "Q es" using Cons.IH Cons.prems by simp
    ultimately have "Q ((fst e, snd e) # es)" by (rule assms(5))
    then show ?case by simp
  qed
  have all: "P d" for d
  proof (induction d)
    case (File s)
    show ?case by (rule assms(1))
  next
    case DirLink
    show ?case by (rule assms(2))
  next
    case (Dir st r sx es)
    have "Q es"
    proof (rule lift)
      fix e assume mem: "e \<in> set es"
      have "snd e \<in> Basic_BNFs.snds e" by (cases e) simp
      with mem show "P (snd e)" by (rule Dir)
    qed
    then show ?case by (rule assms(3))
  qed
  show "P d" by (rule all)
  show "Q es" by (rule lift) (rule all)
qed

lemma scan_for_projects_cases [case_names no_frames root_raises leaf loop]:
  obtains
    (no_frames)
      "f = 0"
      "scan_for_projects c f p d chk = (Inl RecursionError, [])"
  | (root_raises) e tr where
      "f \<noteq> 0"
      "scan_root c (f - 1) p d chk = (Inl e, tr)"
      "scan_for_projects c f p d chk = (Inl e, tr)"
  | (leaf) projects tr where
      "f \<noteq> 0"
      "scan_root c (f - 1) p d chk = (Inr projects, tr)"
      "\<And>st sx es. d \<noteq> Dir st True sx es"
      "scan_for_projects c f p d chk = (Inr projects, tr @ [Scandir p])"
  | (loop) st sx es projects tr x ps tr' where
      "f \<noteq> 0"
      "d = Dir st True sx es"
      "scan_root c (f - 1) p d chk = (Inr projects, tr)"
      "scan_entries c (f - 1) p es projects = ((x, ps), tr')"
      "scan_for_projects c f p d chk =
         ((case x of None \<Rightarrow> Inr ps | Some e \<Rightarrow> if e = OSError then Inr ps else Inl e),
          tr @ Scandir p # tr')"
proof (cases "f = 0")
  case True
  then have "scan_for_projects c f p d chk = (Inl RecursionError, [])" by (cases d) simp_all
  with True show thesis by (rule no_frames)
next
  case nz: False
  obtain a tr where root: "scan_root c (f - 1) p d chk = (a, tr)"
    by (cases "scan_root c (f - 1) p d chk")
  show thesis
  proof (cases a)
    case (Inl e)
    have eq: "scan_for_projects c f p d chk = (Inl e, tr)"
      using nz root Inl by (cases d) simp_all
    from nz root [unfolded Inl] eq show thesis by (rule root_raises)
  next
    case (Inr projects)
    show thesis
    proof (cases "\<exists>st sx es. d = Dir st True sx es")
      case False
      have eq: "scan_for_projects c f p d chk = (Inr projects, tr @ [Scandir p])"
      proof (cases d)
        case (Dir st r sx es)
        with False have "\<not> r" by simp
        with nz Dir root Inr show ?thesis by simp
      qed (use nz root Inr in simp_all)
      have nd: "d \<noteq> Dir st True sx es" for st sx es using False by blast
      from nz root [unfolded Inr] nd eq show thesis by (rule leaf)
    next
      case True
      then obtain st sx es where d: "d = Dir st True sx es" by blast
      obtain x ps tr' where ent: "scan_entries c (f - 1) p es projects = ((x, ps), tr')"
        by (cases "scan_entries c (f - 1) p es projects") auto
      have eq: "scan_for_projects c f p d chk =
         ((case x of None \<Rightarrow> Inr ps | Some e \<Rightarrow> if e = OSError then Inr ps else Inl e),
          tr @ Scandir p # tr')"
        using nz d root Inr ent by (cases x) simp_all
      from nz d root [unfolded Inr] ent eq show thesis by (rule loop)
    qed
  qed
qed

lemma scan_entries_cases [consumes 1, case_names child_raises sub_raises continues]:
  assumes "\<not> should_ignore_directory n (ignore_patterns c)"
  obtains
    (child_raises) e tr0 where
      "scan_child c f (p @ [n]) n (Dir st r sx sub) (length projects) = (Inl e, tr0)"
      "scan_entries c f p ((n, Dir st r sx sub) # es) projects = ((Some e, projects), tr0)"
  | (sub_raises) found tr0 e tr1 where
      "scan_child c f (p @ [n]) n (Dir st r sx sub) (length projects) = (Inr found, tr0)"
      "scan_for_projects c f (p @ [n]) (Dir st r sx sub) False = (Inl e, tr1)"
      "scan_entries c f p ((n, Dir st r sx sub) # es) projects = ((Some e, projects @ found), tr0 @ tr1)"
  | (continues) found tr0 sub_projects tr1 res tr2 where
      "scan_child c f (p @ [n]) n (Dir st r sx sub) (length projects) = (Inr found, tr0)"
      "scan_for_projects c f (p @ [n]) (Dir st r sx sub) False = (Inr sub_projects, tr1)"
      "scan_entries c f p es (projects @ found @ sub_projects) = (res, tr2)"
      "scan_entries c f p ((n, Dir st r sx sub) # es) projects = (res, tr0 @ tr1 @ tr2)"
proof -
  obtain a tr0 where ch: "scan_child c f (p @ [n]) n (Dir st r sx sub) (length projects) = (a, tr0)"
    by (cases "scan_child c f (p @ [n]) n (Dir st r sx sub) (length projects)")
  show thesis
  proof (cases a)
    case (Inl e)
    have "scan_entries c f p ((n, Dir st r sx sub) # es) projects = ((Some e, projects), tr0)"
      using assms ch Inl by (simp del: scan_for_projects.simps)
    with ch Inl show thesis by (auto intro: child_raises)
  next
    case (Inr found)
    obtain b tr1 where sb: "scan_for_projects c f (p @ [n]) (Dir st r sx sub) False = (b, tr1)"
      by (cases "scan_for_projects c f (p @ [n]) (Dir st r sx sub) False")
    show thesis
    proof (cases b)
      case (Inl e)
      have "scan_entries c f p ((n, Dir st r sx sub) # es) projects = ((Some e, projects @ found), tr0 @ tr1)"
        using assms ch Inr sb Inl by (simp del: scan_for_projects.simps)
      with ch Inr sb Inl show thesis by (auto intro: sub_raises)
    next
      case (Inr sub_projects)
      obtain res tr2 where rs: "scan_entries c f p es (projects @ found @ sub_projects) = (res, tr2)"
        by (cases "scan_entries c f p es (projects @ found @ sub_projects)")
      have "scan_entries c f p ((n, Dir st r sx sub) # es) projects = (res, tr0 @ tr1 @ tr2)"
        using assms ch \<open>a = Inr found\<close> sb Inr rs by (simp del: scan_for_projects.simps)
      with ch \<open>a = Inr found\<close> sb Inr rs show thesis by (auto intro: continues)
    qed
  qed
qed

subsection \<open>Where the projects of the result come from\<close>

lemma make_project_path: "make_project c f q nm d = Inr pr \<Longrightarrow> path pr = q \<and> name pr = nm"
  by (auto simp: make_project_def Let_def split: sum.splits prod.splits)

lemma madeI:
  "(q, nd) \<in> set walk \<Longrightarrow> is_project_directory nd = Inr True \<Longrightarrow>
   make_project c f q nm nd = Inr pr \<Longrightarrow> made c walk pr"
  unfolding made_def using make_project_path by blast

lemma made_mono: "made c walk pr \<Longrightarrow> set walk \<subseteq> set walk' \<Longrightarrow> made c walk' pr"
  unfolding made_def by blast

lemma scan_root_made:
  "scan_root c f p d chk = (Inr ps, tr) \<Longrightarrow> pr \<in> set ps \<Longrightarrow>
     chk \<and> is_project_directory d = Inr True \<and> make_project c f p (path_name p) d = Inr pr"
  by (auto simp: scan_root_def split: if_splits sum.splits bool.splits prod.splits option.splits)

lemma scan_child_made:
  "scan_child c f q nm d n = (Inr found, tr) \<Longrightarrow> pr \<in> set found \<Longrightarrow>
     is_project_directory d = Inr True \<and> make_project c f q nm d = Inr pr"
  by (auto simp: scan_child_def split: if_splits sum.splits bool.splits prod.splits option.splits)

lemma scan_made:
  shows "fst (scan_for_projects c f p d chk) = Inr ps \<Longrightarrow> pr \<in> set ps \<Longrightarrow>
           made c ((p, d) # spec_walk (ignore_patterns c) p d) pr"
    and "fst (scan_entries c f p es projects) = (x, qs) \<Longrightarrow> pr \<in> set qs \<Longrightarrow>
           pr \<in> set projects \<or> made c (spec_walk_entries (ignore_patterns c) p es) pr"
proof (induction d and es arbitrary: f p chk ps and f p projects x qs rule: node_entries_induct)
  case (File s)
  show ?case
  proof (cases rule: scan_for_projects_cases [where f = f and c = c and p = p and d = "File s" and chk = chk])
    case (leaf projects tr)
    with File have "pr \<in> set projects" by simp
    with leaf(2) show ?thesis by (auto dest!: scan_root_made intro: madeI)
  qed (use File in simp_all)
next
  case DirLink
  show ?case
  proof (cases rule: scan_for_projects_cases [where f = f and c = c and p = p and d = DirLink and chk = chk])
    case (leaf projects tr)
    with DirLink have "pr \<in> set projects" by simp
    with leaf(2) show ?thesis by (auto dest!: scan_root_made intro: madeI)
  qed (use DirLink in simp_all)
next
  case (Dir st r sx es)
  show ?case
  proof (cases rule: scan_for_projects_cases [where f = f and c = c and p = p and d = "Dir st r sx es" and chk = chk])
    case no_frames
    with Dir.prems show ?thesis by simp
  next
    case (root_raises e tr)
    with Dir.prems show ?thesis by simp
  next
    case (leaf projects tr)
    with Dir.prems have "pr \<in> set projects" by simp
    with leaf(2) show ?thesis by (auto dest!: scan_root_made intro: madeI)
  next
    case (loop st' sx' es' projects tr x ps' tr')
    then have es: "es' = es" and r: "r" by simp_all
    from loop(5) Dir.prems have "pr \<in> set ps'"
      by (auto split: option.splits if_splits)
    with Dir.IH [of "f - 1" p projects x ps'] loop(4) es
    have "pr \<in> set projects \<or> made c (spec_walk_entries (ignore_patterns c) p es) pr"
      by simp
    then show ?thesis
    proof
      assume "pr \<in> set projects"
      with loop(3) show ?thesis by (auto dest!: scan_root_made intro: madeI)
    next
      assume "made c (spec_walk_entries (ignore_patterns c) p es) pr"
      then show ?thesis using r by (auto elim: made_mono)
    qed
  qed
next
  case Nil
  then show ?case by simp
next
  case (Cons n d es)
  show ?case
  proof (cases d)
    case (File s)
    with Cons.IH(2) [of f p projects x qs] Cons.prems show ?thesis by simp
  next
    case DirLink
    with Cons.IH(2) [of f p projects x qs] Cons.prems show ?thesis by simp
  next
    case (Dir st r sx sub)
    show ?thesis
    proof (cases "should_ignore_directory n (ignore_patterns c)")
      case True
      with Cons.IH(2) [of f p projects x qs] Cons.prems Dir show ?thesis
        by (simp add: should_ignore_directory_def)
    next
      case False
      then have nin: "n \<notin> set (ignore_patterns c)" by (simp add: should_ignore_directory_def)
      let ?w = "spec_walk_entries (ignore_patterns c) p ((n, d) # es)"
      have w: "set ?w = insert (p @ [n], d) (set (spec_walk (ignore_patterns c) (p @ [n]) d)
                 \<union> set (spec_walk_entries (ignore_patterns c) p es))"
        using nin Dir by simp
      have mem: "(p @ [n], d) \<in> set ?w" unfolding w by simp
      from False show ?thesis
      proof (cases rule: scan_entries_cases [where f = f and p = p and st = st and r = r and sx = sx
              and sub = sub and projects = projects and es = es])
        case (child_raises e tr0)
        with Cons.prems Dir show ?thesis by simp
      next
        case (sub_raises found tr0 e tr1)
        with Cons.prems Dir have "pr \<in> set projects \<or> pr \<in> set found" by auto
        then show ?thesis
        proof
          assume "pr \<in> set found"
          from scan_child_made [OF sub_raises(1) this] Dir
          have "is_project_directory d = Inr True" and "make_project c f (p @ [n]) n d = Inr pr"
            by simp_all
          with mem have "made c ?w pr" by (rule madeI)
          then show ?thesis ..
        qed simp
      next
        case (continues found tr0 sub_projects tr1 res tr2)
        with Cons.prems Dir
        have "fst (scan_entries c f p es (projects @ found @ sub_projects)) = (x, qs)"
          by simp
        from Cons.IH(2) [OF this Cons.prems(2)]
        have "pr \<in> set projects \<or> pr \<in> set found \<or> pr \<in> set sub_projects
                \<or> made c (spec_walk_entries (ignore_patterns c) p es) pr" by auto
        moreover have "pr \<in> set found \<Longrightarrow> made c ?w pr"
        proof -
          assume "pr \<in> set found"
          from scan_child_made [OF continues(1) this] Dir
          have "is_project_directory d = Inr True" and "make_project c f (p @ [n]) n d = Inr pr"
            by simp_all
          with mem show ?thesis by (rule madeI)
        qed
        moreover have "pr \<in> set sub_projects \<Longrightarrow> made c ?w pr"
        proof -
          assume "pr \<in> set sub_projects"
          with Cons.IH(1) [of f "p @ [n]" False sub_projects] continues(2) Dir
          have "made c ((p @ [n], d) # spec_walk (ignore_patterns c) (p @ [n]) d) pr" by simp
          then show ?thesis by (rule made_mono) (auto simp: w)
        qed
        moreover have "made c (spec_walk_entries (ignore_patterns c) p es) pr \<Longrightarrow> made c ?w pr"
          by (rule made_mono) (auto simp: w)
        ultimately show ?thesis by blast
      qed
    qed
  qed
qed

subsection \<open>Where the scan goes\<close>

lemma spec_walk_shape:
  shows "(q, nd) \<in> set (spec_walk ign p d) \<Longrightarrow>
           \<exists>rel. rel \<noteq> [] \<and> q = p @ rel \<and> set rel \<inter> set ign = {}"
    and "(q, nd) \<in> set (spec_walk_entries ign p es) \<Longrightarrow>
           \<exists>rel. rel \<noteq> [] \<and> q = p @ rel \<and> set rel \<inter> set ign = {}"
proof (induction d and es arbitrary: p and p rule: node_entries_induct)
  case (Dir st r sx es)
  then show ?case by (cases r) auto
next
  case (Cons n d es)
  show ?case
  proof (cases d)
    case (Dir st r sx sub)
    show ?thesis
    proof (cases "n \<in> set ign")
      case True
      with Cons.prems Cons.IH(2) Dir show ?thesis by simp
    next
      case False
      with Cons.prems Dir
      consider "q = p @ [n]" | "(q, nd) \<in> set (spec_walk ign (p @ [n]) d)"
        | "(q, nd) \<in> set (spec_walk_entries ign p es)" by auto
      then show ?thesis
      proof cases
        case 1
        with False show ?thesis by (intro exI [of _ "[n]"]) simp
      next
        case 2
        from Cons.IH(1) [OF this] obtain rel where
          "rel \<noteq> []" "q = (p @ [n]) @ rel" "set rel \<inter> set ign = {}" by blast
        with False show ?thesis by (intro exI [of _ "n # rel"]) simp
      next
        case 3
        then show ?thesis by (rule Cons.IH(2))
      qed
    qed
  qed (use Cons in simp_all)
qed simp_all

lemma notify_paths: "ev \<in> set (snd (notify c q n)) \<Longrightarrow> event_path ev = q"
  by (auto simp: notify_def split: option.splits sum.splits)

lemma scan_root_paths: "scan_root c f p d chk = (a, tr) \<Longrightarrow> ev \<in> set tr \<Longrightarrow> event_path ev = p"
  using notify_paths [of ev c p 0]
  by (auto simp: scan_root_def split: if_splits sum.splits bool.splits prod.splits option.splits)

lemma scan_child_paths: "scan_child c f q nm d n = (a, tr) \<Longrightarrow> ev \<in> set tr \<Longrightarrow> event_path ev = q"
  using notify_paths [of ev c q n]
  by (auto simp: scan_child_def split: if_splits sum.splits bool.splits prod.splits option.splits)

lemma scan_event_paths:
  shows "ev \<in> set (snd (scan_for_projects c f p d chk)) \<Longrightarrow>
           event_path ev = p \<or> event_path ev \<in> fst ` set (spec_walk (ignore_patterns c) p d)"
    and "ev \<in> set (snd (scan_entries c f p es projects)) \<Longrightarrow>
           event_path ev \<in> fst ` set (spec_walk_entries (ignore_patterns c) p es)"
proof (induction d and es arbitrary: f p chk and f p projects rule: node_entries_induct)
  case (File s)
  then show ?case
    by (cases rule: scan_for_projects_cases [where f = f and c = c and p = p and d = "File s" and chk = chk])
       (auto dest: scan_root_paths)
next
  case DirLink
  then show ?case
    by (cases rule: scan_for_projects_cases [where f = f and c = c and p = p and d = DirLink and chk = chk])
       (auto dest: scan_root_paths)
next
  case (Dir st r sx es)
  show ?case
  proof (cases rule: scan_for_projects_cases [where f = f and c = c and p = p and d = "Dir st r sx es" and chk = chk])
    case no_frames
    with Dir.prems show ?thesis by simp
  next
    case (root_raises e tr)
    with Dir.prems show ?thesis by (auto dest: scan_root_paths)
  next
    case (leaf projects tr)
    with Dir.prems show ?thesis by (auto dest: scan_root_paths)
  next
    case (loop st' sx' es' projects tr x ps' tr')
    then have es: "es' = es" and r: "r" by simp_all
    from loop(5) Dir.prems have "ev \<in> set tr \<or> ev = Scandir p \<or> ev \<in> set tr'" by auto
    then show ?thesis
    proof (elim disjE)
      assume "ev \<in> set tr'"
      with Dir.IH [of "f - 1" p projects] loop(4) es r show ?thesis by simp
    qed (use loop(3) in \<open>auto dest: scan_root_paths\<close>)
  qed
next
  case Nil
  then show ?case by simp
next
  case (Cons n d es)
  show ?case
  proof (cases d)
    case (File s)
    with Cons.IH(2) [of f p projects] Cons.prems show ?thesis by simp
  next
    case DirLink
    with Cons.IH(2) [of f p projects] Cons.prems show ?thesis by simp
  next
    case (Dir st r sx sub)
    show ?thesis
    proof (cases "should_ignore_directory n (ignore_patterns c)")
      case True
      with Cons.IH(2) [of f p projects] Cons.prems Dir show ?thesis
        by (simp add: should_ignore_directory_def)
    next
      case False
      then have nin: "n \<notin> set (ignore_patterns c)" by (simp add: should_ignore_directory_def)
      let ?w = "spec_walk_entries (ignore_patterns c) p ((n, d) # es)"
      have w: "set ?w = insert (p @ [n], d) (set (spec_walk (ignore_patterns c) (p @ [n]) d)
                 \<union> set (spec_walk_entries (ignore_patterns c) p es))"
        using nin Dir by simp
      have t0: "event_path ev \<in> fst ` set ?w"
        if "scan_child c f (p @ [n]) n (Dir st r sx sub) (length projects) = (a, tr0)" "ev \<in> set tr0"
        for a tr0
        using scan_child_paths [OF that] unfolding w by simp
      have t1: "event_path ev \<in> fst ` set ?w"
        if "scan_for_projects c f (p @ [n]) (Dir st r sx sub) False = (a, tr1)" "ev \<in> set tr1"
        for a tr1
        using Cons.IH(1) [of f "p @ [n]" False] that Dir unfolding w by auto
      have t2: "event_path ev \<in> fst ` set ?w"
        if "scan_entries c f p es qs = (a, tr2)" "ev \<in> set tr2" for a tr2 qs
        using Cons.IH(2) [of f p qs] that unfolding w by auto
      from False show ?thesis
      proof (cases rule: scan_entries_cases [where f = f and p = p and st = st and r = r and sx = sx
              and sub = sub and projects = projects and es = es])
        case (child_raises e tr0)
        with Cons.prems Dir t0 show ?thesis by simp
      next
        case (sub_raises found tr0 e tr1)
        with Cons.prems Dir have "ev \<in> set tr0 \<or> ev \<in> set tr1" by simp
        with sub_raises t0 t1 show ?thesis by blast
      next
        case (continues found tr0 sub_projects tr1 res tr2)
        with Cons.prems Dir have "ev \<in> set tr0 \<or> ev \<in> set tr1 \<or> ev \<in> set tr2" by simp
        with continues t0 t1 t2 show ?thesis by blast
      qed
    qed
  qed
qed

subsection \<open>A scan in which nothing raises\<close>

lemma accessible_searchable: "accessible d \<Longrightarrow> searchable d"
  by (cases d) simp_all

lemma get_git_info_quiet:
  "inspection_quiet c \<Longrightarrow> searchable d \<Longrightarrow> \<exists>info. get_git_info (open_repo c) q d = Inr info"
  unfolding inspection_quiet_def get_git_info_def path_exists_def
  by (cases "inspect_repo (open_repo c q)") (auto split: bool.splits)

lemma project_is_directory:
  assumes "is_project_directory d = Inr True"
  shows "\<exists>st r sx es. d = Dir st r sx es"
proof (cases d)
  case (File s)
  with assms show ?thesis
    using is_project_directory_searchable [of d]
    by (simp add: vcs_marker_def readme_present_def table_hit_def has_entry_def
        marker_present_def PROJECT_TYPE_MARKERS_def)
next
  case DirLink
  with assms show ?thesis
    using is_project_directory_searchable [of d]
    by (simp add: vcs_marker_def readme_present_def table_hit_def has_entry_def
        marker_present_def PROJECT_TYPE_MARKERS_def)
qed simp

text \<open>A walk with frames enough raises nothing, and in an accessible tree every
  time it yields is convertible.\<close>

lemma os_walk_quiet:
  shows "nesting d \<le> f \<Longrightarrow> Raise e \<notin> set (os_walk f d)"
    and "nesting_entries es \<le> f \<Longrightarrow> Raise e \<notin> set (os_walk_dirs f es)"
proof (induction d and es arbitrary: f and f rule: node_entries_induct)
  case (Dir st r sx es)
  from Dir.prems have "nesting_entries es \<le> f - 1" and "f \<noteq> 0" by simp_all
  with Dir.IH [of "f - 1"] show ?case by simp
next
  case (Cons n d es)
  show ?case
  proof (cases d)
    case (Dir st r sx sub)
    with Cons.prems have "nesting d \<le> f" and "nesting_entries es \<le> f" by simp_all
    with Cons.IH(1) [of f] Cons.IH(2) [of f] Dir show ?thesis by (simp del: os_walk.simps)
  qed (use Cons in simp_all)
qed simp_all

lemma filenames_accessible:
  "accessible_entries es \<Longrightarrow> Some (sz, mtime) \<in> set (filenames es) \<Longrightarrow> convertible mtime"
  by (induction es rule: filenames.induct) auto

lemma os_walk_accessible:
  shows "accessible d \<Longrightarrow> Yield st' fs \<in> set (os_walk f d) \<Longrightarrow>
           (\<forall>mtime. st' = Some mtime \<longrightarrow> convertible mtime) \<and>
           (\<forall>sz mtime. Some (sz, mtime) \<in> set fs \<longrightarrow> convertible mtime)"
    and "accessible_entries es \<Longrightarrow> Yield st' fs \<in> set (os_walk_dirs f es) \<Longrightarrow>
           (\<forall>mtime. st' = Some mtime \<longrightarrow> convertible mtime) \<and>
           (\<forall>sz mtime. Some (sz, mtime) \<in> set fs \<longrightarrow> convertible mtime)"
proof (induction d and es arbitrary: f and f rule: node_entries_induct)
  case (Dir st r sx es)
  from Dir.prems(2) have "f \<noteq> 0" and r and
    "(st' = st \<and> fs = filenames es) \<or> Yield st' fs \<in> set (os_walk_dirs (f - 1) es)"
    by (auto split: if_splits)
  then show ?case
  proof (elim disjE conjE)
    assume "st' = st" "fs = filenames es"
    with Dir.prems(1) show ?thesis
      by (auto split: option.splits dest: filenames_accessible)
  next
    assume "Yield st' fs \<in> set (os_walk_dirs (f - 1) es)"
    with Dir.IH [of "f - 1"] Dir.prems(1) show ?thesis by simp
  qed
next
  case (Cons n d es)
  from Cons.prems(1) have ad: "accessible d" and aes: "accessible_entries es" by simp_all
  show ?case
  proof (cases d)
    case (Dir st r sx sub)
    with Cons.prems(2)
    have "Yield st' fs \<in> set (os_walk f d) \<or> Yield st' fs \<in> set (os_walk_dirs f es)"
      by (simp del: os_walk.simps)
    then show ?thesis
    proof
      assume "Yield st' fs \<in> set (os_walk f d)"
      with ad show ?thesis by (rule Cons.IH(1))
    next
      assume "Yield st' fs \<in> set (os_walk_dirs f es)"
      with aes show ?thesis by (rule Cons.IH(2))
    qed
  next
    case (File s)
    with Cons.prems(2) have "Yield st' fs \<in> set (os_walk_dirs f es)" by simp
    with aes show ?thesis by (rule Cons.IH(2))
  next
    case DirLink
    with Cons.prems(2) have "Yield st' fs \<in> set (os_walk_dirs f es)" by simp
    with aes show ?thesis by (rule Cons.IH(2))
  qed
qed (auto split: if_splits)

lemma newest_file_quiet:
  "\<forall>sz mtime. Some (sz, mtime) \<in> set fs \<longrightarrow> convertible mtime \<Longrightarrow>
     \<exists>m'. newest_file fs m = Inr m'"
proof (induction fs arbitrary: m)
  case Nil
  show ?case by simp
next
  case (Cons a fs)
  from Cons.prems have rest: "\<forall>sz mtime. Some (sz, mtime) \<in> set fs \<longrightarrow> convertible mtime"
    by simp
  show ?case
  proof (cases a)
    case None
    with Cons.IH [OF rest, of m] show ?thesis by simp
  next
    case (Some sm)
    obtain sz mtime where sm: "sm = (sz, mtime)" by (cases sm)
    with Some Cons.prems have "fromtimestamp mtime = Inr mtime" by (simp add: convertible_def)
    with Some sm Cons.IH [OF rest, of "if mtime > m then mtime else m"] show ?thesis by simp
  qed
qed

lemma newest_walk_quiet:
  assumes "\<forall>e. Raise e \<notin> set w"
    and "\<forall>st' fs. Yield st' fs \<in> set w \<longrightarrow>
           (\<forall>mtime. st' = Some mtime \<longrightarrow> convertible mtime) \<and>
           (\<forall>sz mtime. Some (sz, mtime) \<in> set fs \<longrightarrow> convertible mtime)"
  shows "\<exists>m'. newest_walk w m = Inr m'"
  using assms
proof (induction w arbitrary: m)
  case Nil
  show ?case by simp
next
  case (Cons a w)
  from Cons.prems have r1: "\<forall>e. Raise e \<notin> set w"
    and r2: "\<forall>st' fs. Yield st' fs \<in> set w \<longrightarrow>
           (\<forall>mtime. st' = Some mtime \<longrightarrow> convertible mtime) \<and>
           (\<forall>sz mtime. Some (sz, mtime) \<in> set fs \<longrightarrow> convertible mtime)"
    by simp_all
  note IH = Cons.IH [OF r1 r2]
  show ?case
  proof (cases a)
    case (Raise e)
    with Cons.prems(1) have False by (metis list.set_intros(1))
    then show ?thesis ..
  next
    case (Yield st' fs)
    with Cons.prems(2) have dir: "\<forall>mtime. st' = Some mtime \<longrightarrow> convertible mtime"
      and files: "\<forall>sz mtime. Some (sz, mtime) \<in> set fs \<longrightarrow> convertible mtime"
      by simp_all
    show ?thesis
    proof (cases st')
      case None
      with Yield IH [of m] show ?thesis by simp
    next
      case (Some mtime)
      with dir have cv: "fromtimestamp mtime = Inr mtime" by (simp add: convertible_def)
      from newest_file_quiet [OF files, of "if mtime > m then mtime else m"] obtain m' where
        nf: "newest_file fs (if mtime > m then mtime else m) = Inr m'" by blast
      with Yield Some cv IH [of m'] show ?thesis by simp
    qed
  qed
qed

lemma walk_sizes_quiet:
  "\<forall>e. Raise e \<notin> set w \<Longrightarrow> \<exists>total. walk_sizes w t = Inr total"
  by (induction w t rule: walk_sizes.induct) auto

lemma make_project_quiet:
  assumes "inspection_quiet c" and "accessible d" and "is_project_directory d = Inr True"
    and "nesting d \<le> f"
  shows "\<exists>pr. make_project c f q nm d = Inr pr"
proof -
  note s = accessible_searchable [OF assms(2)]
  from get_git_info_quiet [OF assms(1) s] obtain hg remote status where
    g: "get_git_info (open_repo c) q d = Inr (hg, remote, status)"
    by (metis prod_cases3)
  from find_readme_searchable [OF s] obtain rd where rd: "find_readme d = Inr rd" by blast
  from detect_project_type_searchable [OF s] obtain t where t: "detect_project_type d = Inr t"
    by blast
  have nr: "\<forall>e. Raise e \<notin> set (os_walk f d)"
    using os_walk_quiet(1) [OF assms(4)] by blast
  have cv: "\<forall>st' fs. Yield st' fs \<in> set (os_walk f d) \<longrightarrow>
           (\<forall>mtime. st' = Some mtime \<longrightarrow> convertible mtime) \<and>
           (\<forall>sz mtime. Some (sz, mtime) \<in> set fs \<longrightarrow> convertible mtime)"
    using os_walk_accessible(1) [OF assms(2)] by blast
  from project_is_directory [OF assms(3)] assms(2) obtain mtime where
    st: "stat_mtime d = Some mtime" "fromtimestamp mtime = Inr mtime"
    by (auto simp: convertible_def split: option.splits)
  from newest_walk_quiet [OF nr cv, of mtime]
  obtain lm where "newest_walk (os_walk f d) mtime = Inr lm" by blast
  with st have lm: "get_last_modified f d = Inr lm" by (simp add: get_last_modified_def)
  from walk_sizes_quiet [OF nr, of 0] obtain total where
    "walk_sizes (os_walk f d) 0 = Inr total" by blast
  then have "get_directory_size f d = Inr (real total / (1024 * 1024))"
    by (simp add: get_directory_size_def)
  with g rd t lm show ?thesis by (simp add: make_project_def Let_def)
qed

lemma is_project_directory_returns:
  "accessible d \<Longrightarrow> is_project_directory d = Inr (is_project_directory d = Inr True)"
  using accessible_searchable [of d] is_project_directory_searchable [of d] by simp

lemma evaluated_paths_append [simp]:
  "evaluated_paths (a @ b) = evaluated_paths a @ evaluated_paths b"
  by (induction a rule: evaluated_paths.induct) simp_all

lemma scandir_paths_append [simp]:
  "scandir_paths (a @ b) = scandir_paths a @ scandir_paths b"
  by (induction a rule: scandir_paths.induct) simp_all

lemma found_paths_append [simp]:
  "found_paths (a @ b) = found_paths a @ found_paths b"
  by (induction a rule: found_paths.induct) simp_all

lemma callbacks_append [simp]:
  "callbacks (a @ b) = callbacks a @ callbacks b"
  by (induction a rule: callbacks.induct) simp_all

lemma notify_projections [simp]:
  "evaluated_paths (snd (notify c q n)) = []"
  "scandir_paths (snd (notify c q n)) = []"
  "found_paths (snd (notify c q n)) = []"
  "callbacks (snd (notify c q n)) = (if progress_callback c = None then [] else [(q, n)])"
  by (auto simp: notify_def split: option.splits sum.splits)

lemma notify_quiet: "callback_quiet c \<Longrightarrow> fst (notify c q n) = None"
proof (cases "progress_callback c")
  case (Some cb)
  assume "callback_quiet c"
  with Some obtain returned where "cb q n = Inr returned"
    unfolding callback_quiet_def by auto
  with Some show ?thesis by (simp add: notify_def)
qed (simp add: notify_def)

text \<open>The trace and the result of the two non-recursive parts, when nothing raises.\<close>

lemma scan_root_quiet:
  assumes "inspection_quiet c" and "callback_quiet c" and "accessible d" and "nesting d \<le> f"
  shows "\<exists>ps tr. scan_root c f p d chk = (Inr ps, tr) \<and>
           map path ps = (if chk \<and> is_project_directory d = Inr True then [p] else []) \<and>
           evaluated_paths tr = (if chk then [p] else []) \<and>
           scandir_paths tr = [] \<and>
           found_paths tr = map path ps \<and>
           callbacks tr = (if progress_callback c = None then [] else map (\<lambda>q. (q, 0)) (map path ps))"
proof (cases "chk \<and> is_project_directory d = Inr True")
  case True
  with make_project_quiet [OF assms(1,3) _ assms(4)] obtain pr where
    m: "make_project c f p (path_name p) d = Inr pr" by blast
  obtain tr where n: "notify c p 0 = (None, tr)"
    using notify_quiet [OF assms(2), of p 0] by (cases "notify c p 0") simp
  from notify_projections [of c p 0] n have pj:
    "evaluated_paths tr = []" "scandir_paths tr = []" "found_paths tr = []"
    "callbacks tr = (if progress_callback c = None then [] else [(p, 0)])" by simp_all
  from m n True have "scan_root c f p d chk = (Inr [pr], Evaluated p # tr @ [Found p])"
    by (simp add: scan_root_def)
  with make_project_path [OF m] True pj show ?thesis by simp
next
  case False
  with is_project_directory_returns [OF assms(3)] show ?thesis
    by (cases chk) (auto simp: scan_root_def)
qed

lemma scan_child_quiet:
  assumes "inspection_quiet c" and "callback_quiet c" and "accessible d" and "nesting d \<le> f"
  shows "\<exists>ps tr. scan_child c f q nm d n = (Inr ps, tr) \<and>
           map path ps = (if is_project_directory d = Inr True then [q] else []) \<and>
           evaluated_paths tr = [q] \<and>
           scandir_paths tr = [] \<and>
           found_paths tr = map path ps \<and>
           callbacks tr = (if progress_callback c = None then [] else [(q, n)])"
proof -
  obtain tr where n: "notify c q n = (None, tr)"
    using notify_quiet [OF assms(2), of q n] by (cases "notify c q n") simp
  from notify_projections [of c q n] n have pj:
    "evaluated_paths tr = []" "scandir_paths tr = []" "found_paths tr = []"
    "callbacks tr = (if progress_callback c = None then [] else [(q, n)])" by simp_all
  show ?thesis
  proof (cases "is_project_directory d = Inr True")
    case True
    with make_project_quiet [OF assms(1,3) _ assms(4)] obtain pr where
      m: "make_project c f q nm d = Inr pr" by blast
    from m n True have "scan_child c f q nm d n = (Inr [pr], tr @ [Evaluated q, Found q])"
      by (simp add: scan_child_def)
    with make_project_path [OF m] True pj show ?thesis by simp
  next
    case False
    with is_project_directory_returns [OF assms(3)]
    have "is_project_directory d = Inr False" by simp
    with n have "scan_child c f q nm d n = (Inr [], tr @ [Evaluated q])"
      by (simp add: scan_child_def)
    with False pj show ?thesis by simp
  qed
qed

lemma walk_projects_simps [simp]:
  "walk_projects [] = []"
  "walk_projects (x # w) = (if is_project_directory (snd x) = Inr True then fst x # walk_projects w else walk_projects w)"
  "walk_projects (w @ w') = walk_projects w @ walk_projects w'"
  by (simp_all add: walk_projects_def)

lemma scan_quiet:
  assumes quiet: "inspection_quiet c" and cq: "callback_quiet c"
  shows "accessible d \<Longrightarrow> nesting d < f \<Longrightarrow>
           \<exists>ps tr. scan_for_projects c f p d chk = (Inr ps, tr) \<and>
             map path ps = (if chk \<and> is_project_directory d = Inr True then [p] else []) @
                             walk_projects (spec_walk (ignore_patterns c) p d) \<and>
             evaluated_paths tr = (if chk then [p] else []) @
                             map fst (spec_walk (ignore_patterns c) p d) \<and>
             scandir_paths tr = p # map fst (spec_walk (ignore_patterns c) p d) \<and>
             found_paths tr = map path ps \<and>
             map fst (callbacks tr) =
               (if progress_callback c = None then []
                else (if chk \<and> is_project_directory d = Inr True then [p] else []) @
                       map fst (spec_walk (ignore_patterns c) p d))"
    and "accessible_entries es \<Longrightarrow> nesting_entries es < f \<Longrightarrow>
           \<exists>ps tr. scan_entries c f p es projects = ((None, projects @ ps), tr) \<and>
             map path ps = walk_projects (spec_walk_entries (ignore_patterns c) p es) \<and>
             evaluated_paths tr = map fst (spec_walk_entries (ignore_patterns c) p es) \<and>
             scandir_paths tr = map fst (spec_walk_entries (ignore_patterns c) p es) \<and>
             found_paths tr = map path ps \<and>
             map fst (callbacks tr) =
               (if progress_callback c = None then []
                else map fst (spec_walk_entries (ignore_patterns c) p es))"
proof (induction d and es arbitrary: f p chk and f p projects rule: node_entries_induct)
  case (File s)
  from File.prems(2) have nz: "f \<noteq> 0" and nd: "nesting (File s) \<le> f - 1" by simp_all
  from scan_root_quiet [OF quiet cq File.prems(1) nd, of p chk] obtain ps0 tr0 where
    "scan_root c (f - 1) p (File s) chk = (Inr ps0, tr0)"
    "map path ps0 = (if chk \<and> is_project_directory (File s) = Inr True then [p] else [])"
    "evaluated_paths tr0 = (if chk then [p] else [])" "scandir_paths tr0 = []"
    "found_paths tr0 = map path ps0"
    "callbacks tr0 = (if progress_callback c = None then [] else map (\<lambda>q. (q, 0)) (map path ps0))"
    by blast
  with nz show ?case by (simp add: comp_def)
next
  case DirLink
  from DirLink.prems(2) have nz: "f \<noteq> 0" and nd: "nesting DirLink \<le> f - 1" by simp_all
  from scan_root_quiet [OF quiet cq DirLink.prems(1) nd, of p chk] obtain ps0 tr0 where
    "scan_root c (f - 1) p DirLink chk = (Inr ps0, tr0)"
    "map path ps0 = (if chk \<and> is_project_directory DirLink = Inr True then [p] else [])"
    "evaluated_paths tr0 = (if chk then [p] else [])" "scandir_paths tr0 = []"
    "found_paths tr0 = map path ps0"
    "callbacks tr0 = (if progress_callback c = None then [] else map (\<lambda>q. (q, 0)) (map path ps0))"
    by blast
  with nz show ?case by (simp add: comp_def)
next
  case (Dir st r sx es)
  from Dir.prems(2) have nz: "f \<noteq> 0" and nd: "nesting (Dir st r sx es) \<le> f - 1"
    and ne: "nesting_entries es < f - 1" by simp_all
  from scan_root_quiet [OF quiet cq Dir.prems(1) nd, of p chk] obtain ps0 tr0 where root:
    "scan_root c (f - 1) p (Dir st r sx es) chk = (Inr ps0, tr0)"
    "map path ps0 = (if chk \<and> is_project_directory (Dir st r sx es) = Inr True then [p] else [])"
    "evaluated_paths tr0 = (if chk then [p] else [])" "scandir_paths tr0 = []"
    "found_paths tr0 = map path ps0"
    "callbacks tr0 = (if progress_callback c = None then [] else map (\<lambda>q. (q, 0)) (map path ps0))"
    by blast
  show ?case
  proof (cases r)
    case False
    with nz root show ?thesis by (simp add: comp_def)
  next
    case True
    from Dir.prems have "accessible_entries es" by simp
    from Dir.IH [OF this ne, of p ps0] obtain ps1 tr1 where loop:
      "scan_entries c (f - 1) p es ps0 = ((None, ps0 @ ps1), tr1)"
      "map path ps1 = walk_projects (spec_walk_entries (ignore_patterns c) p es)"
      "evaluated_paths tr1 = map fst (spec_walk_entries (ignore_patterns c) p es)"
      "scandir_paths tr1 = map fst (spec_walk_entries (ignore_patterns c) p es)"
      "found_paths tr1 = map path ps1"
      "map fst (callbacks tr1) =
         (if progress_callback c = None then []
          else map fst (spec_walk_entries (ignore_patterns c) p es))"
      by blast
    from nz True root(1) loop(1)
    have "scan_for_projects c f p (Dir st r sx es) chk = (Inr (ps0 @ ps1), tr0 @ Scandir p # tr1)"
      by simp
    with True root(2-) loop(2-) show ?thesis by (simp add: comp_def)
  qed
next
  case Nil
  show ?case by simp
next
  case (Cons n d es)
  from Cons.prems have cd: "accessible d" and ces: "accessible_entries es" by simp_all
  from Cons.prems(2) have nes: "nesting_entries es < f" by (cases d) simp_all
  show ?case
  proof (cases d)
    case (File s)
    have "scan_entries c f p ((n, d) # es) projects = scan_entries c f p es projects"
        and "spec_walk_entries (ignore_patterns c) p ((n, d) # es)
               = spec_walk_entries (ignore_patterns c) p es"
        using File by (simp_all add: should_ignore_directory_def)
      with Cons.IH(2) [OF ces nes, of p projects] show ?thesis by (simp only:)
  next
    case DirLink
    have "scan_entries c f p ((n, d) # es) projects = scan_entries c f p es projects"
        and "spec_walk_entries (ignore_patterns c) p ((n, d) # es)
               = spec_walk_entries (ignore_patterns c) p es"
        using DirLink by (simp_all add: should_ignore_directory_def)
      with Cons.IH(2) [OF ces nes, of p projects] show ?thesis by (simp only:)
  next
    case (Dir st r sx sub)
    from Cons.prems(2) Dir have nd: "nesting d < f" by simp
    then have ndl: "nesting d \<le> f" by simp
    show ?thesis
    proof (cases "n \<in> set (ignore_patterns c)")
      case True
      have "scan_entries c f p ((n, d) # es) projects = scan_entries c f p es projects"
        and "spec_walk_entries (ignore_patterns c) p ((n, d) # es)
               = spec_walk_entries (ignore_patterns c) p es"
        using True Dir by (simp_all add: should_ignore_directory_def)
      with Cons.IH(2) [OF ces nes, of p projects] show ?thesis by (simp only:)
    next
      case False
      from scan_child_quiet [OF quiet cq cd ndl, of "p @ [n]" n "length projects"]
      obtain fd t0 where ch:
        "scan_child c f (p @ [n]) n d (length projects) = (Inr fd, t0)"
        "map path fd = (if is_project_directory d = Inr True then [p @ [n]] else [])"
        "evaluated_paths t0 = [p @ [n]]" "scandir_paths t0 = []"
        "found_paths t0 = map path fd"
        "callbacks t0 = (if progress_callback c = None then [] else [(p @ [n], length projects)])"
        by blast
      from Cons.IH(1) [OF cd nd, of "p @ [n]" False] obtain sb t1 where sub:
        "scan_for_projects c f (p @ [n]) d False = (Inr sb, t1)"
        "map path sb = walk_projects (spec_walk (ignore_patterns c) (p @ [n]) d)"
        "evaluated_paths t1 = map fst (spec_walk (ignore_patterns c) (p @ [n]) d)"
        "scandir_paths t1 = (p @ [n]) # map fst (spec_walk (ignore_patterns c) (p @ [n]) d)"
        "found_paths t1 = map path sb"
        "map fst (callbacks t1) =
           (if progress_callback c = None then []
            else map fst (spec_walk (ignore_patterns c) (p @ [n]) d))"
        by auto
      from Cons.IH(2) [OF ces nes, of p "projects @ fd @ sb"] obtain rs t2 where rest:
        "scan_entries c f p es (projects @ fd @ sb) = ((None, (projects @ fd @ sb) @ rs), t2)"
        "map path rs = walk_projects (spec_walk_entries (ignore_patterns c) p es)"
        "evaluated_paths t2 = map fst (spec_walk_entries (ignore_patterns c) p es)"
        "scandir_paths t2 = map fst (spec_walk_entries (ignore_patterns c) p es)"
        "found_paths t2 = map path rs"
        "map fst (callbacks t2) =
           (if progress_callback c = None then []
            else map fst (spec_walk_entries (ignore_patterns c) p es))"
        by blast
      have res: "scan_entries c f p ((n, d) # es) projects
                  = ((None, projects @ (fd @ sb @ rs)), t0 @ t1 @ t2)"
        using False ch(1) sub(1) rest(1) unfolding Dir
        by (simp add: should_ignore_directory_def del: scan_for_projects.simps)
      have w: "spec_walk_entries (ignore_patterns c) p ((n, d) # es) =
                 (p @ [n], d) # spec_walk (ignore_patterns c) (p @ [n]) d @
                 spec_walk_entries (ignore_patterns c) p es"
        using False unfolding Dir by simp
      show ?thesis
        unfolding res w using ch(2-) sub(2-) rest(2-)
        by (intro exI [of _ "fd @ sb @ rs"] exI [of _ "t0 @ t1 @ t2"]) simp
    qed
  qed
qed

text \<open>What the callback returns changes nothing: two callbacks that raise on the
  same calls, with the same exceptions, give the same scan.\<close>

lemma callback_return_ignored:
  fixes c c' :: "'r scan_env"
  assumes same: "c' = c\<lparr>progress_callback := Some cb'\<rparr>"
    and some: "progress_callback c = Some cb"
    and raise: "\<And>q k. (case cb' q k of Inl e \<Rightarrow> Some e | Inr v \<Rightarrow> None) =
                        (case cb q k of Inl e \<Rightarrow> Some e | Inr v \<Rightarrow> None)"
  shows "scan_for_projects c' f p d chk = scan_for_projects c f p d chk"
    and "scan_entries c' f p es projects = scan_entries c f p es projects"
proof (induction d and es arbitrary: f p chk and f p projects rule: node_entries_induct)
  have n: "notify c' q k = notify c q k" for q k
    using same some raise [of q k] by (auto simp: notify_def split: sum.splits)
  have m: "make_project c' g q nm nd = make_project c g q nm nd" for g q nm nd
    using same by (simp add: make_project_def Let_def split: sum.splits prod.splits)
  have root: "scan_root c' g q nd b = scan_root c g q nd b" for g q nd b
    by (simp add: scan_root_def n m split: sum.splits bool.splits prod.splits option.splits)
  have ch: "scan_child c' g q nm nd k = scan_child c g q nm nd k" for g q nm nd k
    by (simp add: scan_child_def n m split: sum.splits bool.splits prod.splits option.splits)
  have ign: "ignore_patterns c' = ignore_patterns c" using same by simp
  {
    case (File s)
    show ?case by (simp add: root)
  next
    case DirLink
    show ?case by (simp add: root)
  next
    case (Dir st r sx es)
    then show ?case by (simp add: root split: prod.splits sum.splits)
  next
    case Nil
    show ?case by simp
  next
    case (Cons n d es)
    show ?case
    proof (cases d)
      case (Dir st r sx sub)
      with Cons.IH(1)
      have "scan_for_projects c' g q (Dir st r sx sub) b = scan_for_projects c g q (Dir st r sx sub) b"
        for g q b by simp
      with Cons.IH(2) show ?thesis unfolding Dir
        by (simp add: ch ign split: prod.splits sum.splits del: scan_for_projects.simps)
    qed (use Cons.IH(2) in simp_all)
  }
qed

section \<open>The scan: claims\<close>

lemmas eval_defs = demo_env_def demo_tree_def demo_path_def demo_frames_def plain_tree_def
  guarded_tree_def scan_root_def scan_child_def make_project_def get_git_info_def
  inspect_repo_def get_last_modified_def get_directory_size_def fromtimestamp_def
  is_project_directory_def find_readme_def README_NAMES_def detect_project_type_def
  PROJECT_TYPE_MARKERS_def marker_hit_def path_exists_def path_is_file_def has_entry_def
  has_file_def notify_def should_ignore_directory_def path_name_def classify_project_def
  is_prunable_def age_days_def us_per_day_def Let_def

lemma demo_quiet: "inspection_quiet demo_env"
  by (simp add: inspection_quiet_def demo_env_def inspect_repo_def)

lemma demo_callback_quiet: "callback_quiet demo_env"
  by (simp add: callback_quiet_def demo_env_def)

lemma demo_accessible: "accessible demo_tree"
  by (simp add: demo_tree_def convertible_def fromtimestamp_def)

lemma demo_nesting: "nesting demo_tree < demo_frames"
  by (simp add: demo_tree_def demo_frames_def)

lemma demo_projects:
  "is_project_directory demo_tree = Inr True"
  "is_project_directory (Dir (Some 3) True True [(''setup.py'', File (Some (40, 9)))]) = Inr True"
  "is_project_directory (Dir (Some 2) False True [(''README.md'', File (Some (1, 1)))]) = Inr True"
  "is_project_directory (Dir (Some 6) True True [(''.git'', File (Some (30, 4)))]) = Inr True"
  "is_project_directory (Dir (Some 4) True True
         [(''package.json'', File (Some (10, 2))),
          (''dep'', Dir (Some 1) True True [(''README.md'', File (Some (1, 1)))])]) = Inr True"
  by (simp_all add: eval_defs)

lemma demo_walk:
  "spec_walk (ignore_patterns demo_env) demo_path demo_tree =
     [(demo_path @ [''lib''], Dir (Some 3) True True [(''setup.py'', File (Some (40, 9)))]),
      (demo_path @ [''locked''], Dir (Some 2) False True [(''README.md'', File (Some (1, 1)))]),
      (demo_path @ [''notes''], Dir (Some 6) True True [(''.git'', File (Some (30, 4)))])]"
  by (simp add: demo_env_def demo_tree_def)

lemma demo_scan:
  "\<exists>ps tr. scan_for_projects demo_env demo_frames demo_path demo_tree True = (Inr ps, tr) \<and>
     map path ps = [demo_path, demo_path @ [''lib''], demo_path @ [''locked''], demo_path @ [''notes'']]"
  using scan_quiet(1) [OF demo_quiet demo_callback_quiet demo_accessible demo_nesting, of demo_path True]
    demo_projects
  unfolding demo_walk by auto


text \<open>
  C5. A child directory whose name is an ignore pattern is skipped with all that
  is below it. Whatever the tree, for a name \<open>n\<close> of \<^verbatim>\<open>ignore_patterns\<close> and a
  directory at \<open>p @ rel @ [n]\<close> below the scan root \<open>p\<close>, no event of the scan (no
  evaluation, no progress report, no project found, no listing) is at this
  directory or below it (\<open>p @ rel @ n # below\<close>), and no project of the result is.
  The match is the equality of strings, so it is exact and sensitive to case. The
  sizes and times of an enclosing project, which \<^verbatim>\<open>os.walk\<close> collects, are not part
  of the walk of the scan.
\<close>

theorem ignored_directory_skipped:
  assumes "n \<in> set (ignore_patterns c)"
  shows "(\<forall>ev \<in> set (snd (scan_for_projects c f p d chk)). event_path ev \<noteq> p @ rel @ n # below) \<and>
         (\<forall>ps. fst (scan_for_projects c f p d chk) = Inr ps \<longrightarrow>
               (\<forall>pr \<in> set ps. path pr \<noteq> p @ rel @ n # below))"
proof -
  have walk: "q \<noteq> p @ rel @ n # below"
    if "(q, nd) \<in> set (spec_walk (ignore_patterns c) p d)" for q nd
  proof
    assume q: "q = p @ rel @ n # below"
    from spec_walk_shape(1) [OF that] obtain rel' where
      "q = p @ rel'" and clean: "set rel' \<inter> set (ignore_patterns c) = {}" by blast
    with q have "rel' = rel @ n # below" by simp
    with clean assms show False by auto
  qed
  have ev: "event_path ev \<noteq> p @ rel @ n # below"
    if "ev \<in> set (snd (scan_for_projects c f p d chk))" for ev
    using scan_event_paths(1) [OF that] walk by auto
  have pr: "path pr \<noteq> p @ rel @ n # below"
    if "fst (scan_for_projects c f p d chk) = Inr ps" "pr \<in> set ps" for ps pr
  proof -
    from scan_made(1) [OF that] obtain nd where
      "(path pr, nd) \<in> set ((p, d) # spec_walk (ignore_patterns c) p d)"
      unfolding made_def by blast
    then show ?thesis using walk by auto
  qed
  from ev pr show ?thesis by blast
qed

text \<open>On the documentation repository: \<^verbatim>\<open>node_modules\<close> holds a manifest and would
  be a project, yet it is not evaluated, \<^verbatim>\<open>node_modules/dep\<close> is not listed, and
  neither is in the result; \<^verbatim>\<open>Node_Modules\<close> would not be ignored.\<close>

theorem ignored_directory_skipped_witness:
  "''node_modules'' \<in> set (ignore_patterns demo_env) \<and>
   is_project_directory (Dir (Some 4) True True
         [(''package.json'', File (Some (10, 2))),
          (''dep'', Dir (Some 1) True True [(''README.md'', File (Some (1, 1)))])]) = Inr True \<and>
   Evaluated (demo_path @ [''node_modules'']) \<notin>
     set (snd (scan_for_projects demo_env demo_frames demo_path demo_tree True)) \<and>
   Scandir (demo_path @ [''node_modules'', ''dep'']) \<notin>
     set (snd (scan_for_projects demo_env demo_frames demo_path demo_tree True)) \<and>
   map path (projr (fst (scan_for_projects demo_env demo_frames demo_path demo_tree True))) =
     [demo_path, demo_path @ [''lib''], demo_path @ [''locked''], demo_path @ [''notes'']] \<and>
   \<not> should_ignore_directory ''Node_Modules'' (ignore_patterns demo_env)"
proof -
  have a: "''node_modules'' \<in> set (ignore_patterns demo_env)" by (simp add: demo_env_def)
  note t1 = ignored_directory_skipped [OF a, of demo_frames demo_path demo_tree True "[]" "[]"]
  note t2 = ignored_directory_skipped [OF a, of demo_frames demo_path demo_tree True "[]" "[''dep'']"]
  from demo_scan
  have e: "map path (projr (fst (scan_for_projects demo_env demo_frames demo_path demo_tree True))) =
     [demo_path, demo_path @ [''lib''], demo_path @ [''locked''], demo_path @ [''notes'']]"
    by auto
  have s: "\<not> should_ignore_directory ''Node_Modules'' (ignore_patterns demo_env)"
    by (simp add: eval_defs)
  from t1 have "Evaluated (demo_path @ [''node_modules'']) \<notin>
      set (snd (scan_for_projects demo_env demo_frames demo_path demo_tree True))"
    by fastforce
  moreover from t2 have "Scandir (demo_path @ [''node_modules'', ''dep'']) \<notin>
      set (snd (scan_for_projects demo_env demo_frames demo_path demo_tree True))"
    by fastforce
  ultimately show ?thesis using a e demo_projects(5) s by blast
qed







lemma scan_entries_extends:
  "\<exists>rest. snd (fst (scan_entries c f p es projects)) = projects @ rest"
proof (induction es arbitrary: projects)
  case Nil
  show ?case by simp
next
  case (Cons e es)
  obtain n d where e: "e = (n, d)" by (cases e)
  show ?case
  proof (cases d)
    case (Dir st r sx sub)
    show ?thesis
    proof (cases "should_ignore_directory n (ignore_patterns c)")
      case True
      with Cons.IH [of projects] e Dir show ?thesis by simp
    next
      case False
      then show ?thesis
      proof (cases rule: scan_entries_cases [where f = f and p = p and st = st and r = r
              and sx = sx and sub = sub and projects = projects and es = es])
        case (child_raises e' tr0)
        then show ?thesis unfolding e Dir by simp
      next
        case (sub_raises found tr0 e' tr1)
        then show ?thesis unfolding e Dir by simp
      next
        case (continues found tr0 sub_projects tr1 res tr2)
        with Cons.IH [of "projects @ found @ sub_projects"] show ?thesis
          unfolding e Dir by auto
      qed
    qed
  qed (use Cons.IH [of projects] e in simp_all)
qed

lemma root_project_first:
  assumes "is_project_directory d = Inr True"
    and "fst (scan_for_projects c f p d True) = Inr ps"
  shows "\<exists>pr rest. ps = pr # rest \<and> make_project c (f - 1) p (path_name p) d = Inr pr"
proof (cases rule: scan_for_projects_cases [where f = f and c = c and p = p and d = d and chk = True])
  case no_frames
  with assms(2) show ?thesis by simp
next
  case (root_raises e tr)
  with assms(2) show ?thesis by simp
next
  case (leaf projects tr)
  with assms show ?thesis
    by (auto simp: scan_root_def split: sum.splits prod.splits option.splits)
next
  case (loop st sx es projects tr x qs tr')
  from loop(3) assms(1) obtain pr where
    pr: "projects = [pr]" "make_project c (f - 1) p (path_name p) d = Inr pr"
    by (auto simp: scan_root_def split: sum.splits prod.splits option.splits)
  from scan_entries_extends [of c "f - 1" p es projects] loop(4) obtain rest where
    "qs = projects @ rest" by auto
  with loop(5) assms(2) pr show ?thesis by (auto split: option.splits if_splits)
qed

lemma root_evaluated: "Evaluated p \<in> set (snd (scan_for_projects c (Suc f) p d True))"
proof -
  have "Evaluated p \<in> set (snd (scan_root c f p d True))"
    by (cases "notify c p 0")
       (auto simp: scan_root_def split: sum.splits bool.splits option.splits)
  then show ?thesis
    by (cases rule: scan_for_projects_cases [where f = "Suc f" and c = c and p = p and d = d and chk = True])
       auto
qed

text \<open>
  C10. The ignore patterns filter the children met in the descent only. A top-level
  call that has a frame to run in evaluates its root, whatever the name of the
  root; what it does with the root does not depend on \<^verbatim>\<open>ignore_patterns\<close>; and when
  the root is a project and the scan returns, the root is the first project of the
  result, under its own path and base name.
\<close>

theorem root_not_filtered:
  "Evaluated p \<in> set (snd (scan_for_projects c (Suc f) p d True)) \<and>
   scan_root (c\<lparr>ignore_patterns := ign\<rparr>) f p d chk = scan_root c f p d chk \<and>
   (is_project_directory d = Inr True \<and> fst (scan_for_projects c (Suc f) p d True) = Inr ps \<longrightarrow>
      (\<exists>pr rest. ps = pr # rest \<and> path pr = p \<and> name pr = path_name p))"
proof (intro conjI impI)
  show "Evaluated p \<in> set (snd (scan_for_projects c (Suc f) p d True))" by (rule root_evaluated)
next
  show "scan_root (c\<lparr>ignore_patterns := ign\<rparr>) f p d chk = scan_root c f p d chk"
    by (simp add: scan_root_def make_project_def notify_def
        split: sum.splits bool.splits prod.splits option.splits)
next
  assume "is_project_directory d = Inr True \<and> fst (scan_for_projects c (Suc f) p d True) = Inr ps"
  then obtain pr rest where "ps = pr # rest"
    "make_project c (Suc f - 1) p (path_name p) d = Inr pr"
    using root_project_first by blast
  with make_project_path show "\<exists>pr rest. ps = pr # rest \<and> path pr = p \<and> name pr = path_name p"
    by blast
qed

text \<open>The root of the documentation repository is named \<^verbatim>\<open>node_modules\<close>, an ignore
  pattern of the scan, and is the first project of the result.\<close>

theorem root_not_filtered_witness:
  "is_project_directory demo_tree = Inr True \<and>
   path_name demo_path \<in> set (ignore_patterns demo_env) \<and>
   map path (projr (fst (scan_for_projects demo_env demo_frames demo_path demo_tree True))) =
     [demo_path, demo_path @ [''lib''], demo_path @ [''locked''], demo_path @ [''notes'']] \<and>
   path (hd (projr (fst (scan_for_projects demo_env demo_frames demo_path demo_tree True)))) = demo_path \<and>
   name (hd (projr (fst (scan_for_projects demo_env demo_frames demo_path demo_tree True)))) = ''node_modules'' \<and>
   Evaluated demo_path \<in> set (snd (scan_for_projects demo_env demo_frames demo_path demo_tree True))"
proof -
  have n: "path_name demo_path \<in> set (ignore_patterns demo_env)"
    by (simp add: path_name_def demo_path_def demo_env_def)
  have nm: "path_name demo_path = ''node_modules''" by (simp add: path_name_def demo_path_def)
  have fr: "Suc 989 = demo_frames" by (simp add: demo_frames_def)
  let ?ps = "projr (fst (scan_for_projects demo_env demo_frames demo_path demo_tree True))"
  note t = root_not_filtered [of demo_path demo_env 989 demo_tree "[]" True ?ps, unfolded fr]
  from demo_scan have ret: "fst (scan_for_projects demo_env demo_frames demo_path demo_tree True) = Inr ?ps"
    and all: "map path ?ps =
      [demo_path, demo_path @ [''lib''], demo_path @ [''locked''], demo_path @ [''notes'']]"
    by auto
  with t demo_projects(1) obtain pr rest where "?ps = pr # rest" "path pr = demo_path"
    "name pr = path_name demo_path" by blast
  with t n nm all demo_projects(1) show ?thesis by simp
qed

lemma get_git_info_shape:
  assumes "get_git_info git q d = Inr (hg, remote, status)"
  shows "path_exists d ''.git'' = Inr hg"
    and "status \<noteq> None \<Longrightarrow> hg"
    and "inspect_repo (git q) = Inl e \<Longrightarrow> remote = None \<and> status = None"
  using assms unfolding get_git_info_def inspect_repo_def
  by (auto split: if_splits sum.splits bool.splits)

lemma make_project_vcs:
  "make_project c f q nm d = Inr pr \<Longrightarrow>
     get_git_info (open_repo c) q d = Inr (has_git pr, git_remote pr, git_status pr)"
  by (auto simp: make_project_def Let_def split: sum.splits prod.splits)

text \<open>
  C9. In every project of a result, \<^verbatim>\<open>git_status\<close> is present only if \<^verbatim>\<open>has_git\<close> is
  true; \<^verbatim>\<open>has_git\<close> says whether \<^verbatim>\<open>.git\<close> exists in the directory of the project; and
  when the inspection of its repository raised, both \<^verbatim>\<open>git_remote\<close> and
  \<^verbatim>\<open>git_status\<close> are absent. Where \<^verbatim>\<open>.git\<close> exists and the repository is invalid or a
  git command fails (\<^verbatim>\<open>InvalidGitRepositoryError\<close>, \<^verbatim>\<open>GitCommandError\<close>),
  \<^verbatim>\<open>get_git_info\<close> returns \<^verbatim>\<open>(True, None, None)\<close> and does not raise; where the
  repository has no remote it returns \<^verbatim>\<open>(True, None, NO_REMOTE)\<close>, so that the remote
  may be absent when \<^verbatim>\<open>has_git\<close> is true.
\<close>

theorem vcs_fields:
  "(fst (scan_for_projects c f p d chk) = Inr ps \<and> pr \<in> set ps \<longrightarrow>
      (git_status pr \<noteq> None \<longrightarrow> has_git pr) \<and>
      (\<forall>e. inspect_repo (open_repo c (path pr)) = Inl e \<longrightarrow>
            git_remote pr = None \<and> git_status pr = None) \<and>
      (\<exists>nd. (path pr, nd) \<in> set ((p, d) # spec_walk (ignore_patterns c) p d) \<and>
            has_git pr = vcs_marker nd)) \<and>
   (path_exists d' ''.git'' = Inr True \<and> inspect_repo (git q) = Inl e \<and>
      (e = InvalidGitRepositoryError \<or> e = GitCommandError) \<longrightarrow>
      get_git_info git q d' = Inr (True, None, None)) \<and>
   (path_exists d' ''.git'' = Inr True \<and> git q = Inr repo \<and> remotes repo = Inr [] \<longrightarrow>
      get_git_info git q d' = Inr (True, None, Some NO_REMOTE))"
proof (intro conjI impI)
  assume a: "fst (scan_for_projects c f p d chk) = Inr ps \<and> pr \<in> set ps"
  then have "made c ((p, d) # spec_walk (ignore_patterns c) p d) pr"
    using scan_made(1) by blast
  then obtain nd g where nd: "(path pr, nd) \<in> set ((p, d) # spec_walk (ignore_patterns c) p d)"
    and m: "make_project c g (path pr) (name pr) nd = Inr pr"
    unfolding made_def by blast
  note g = get_git_info_shape [OF make_project_vcs [OF m]]
  from g(2) show "git_status pr \<noteq> None \<Longrightarrow> has_git pr" .
  from g(3) show "\<forall>e. inspect_repo (open_repo c (path pr)) = Inl e \<longrightarrow>
            git_remote pr = None \<and> git_status pr = None" by blast
  from g(1) have "has_git pr = vcs_marker nd"
    by (auto simp: path_exists_def vcs_marker_def split: if_splits)
  with nd show "\<exists>nd. (path pr, nd) \<in> set ((p, d) # spec_walk (ignore_patterns c) p d) \<and>
            has_git pr = vcs_marker nd" by blast
next
  assume "path_exists d' ''.git'' = Inr True \<and> inspect_repo (git q) = Inl e \<and>
      (e = InvalidGitRepositoryError \<or> e = GitCommandError)"
  then show "get_git_info git q d' = Inr (True, None, None)"
    by (auto simp: get_git_info_def)
next
  assume "path_exists d' ''.git'' = Inr True \<and> git q = Inr repo \<and> remotes repo = Inr []"
  then show "get_git_info git q d' = Inr (True, None, Some NO_REMOTE)"
    by (simp add: get_git_info_def inspect_repo_def select_remote_url_def determine_status_def)
qed

text \<open>On the documentation repository: \<^verbatim>\<open>notes\<close> has a \<^verbatim>\<open>.git\<close> and a repository that
  cannot be opened; its record has \<^verbatim>\<open>has_git\<close> true and neither remote nor status.\<close>

theorem vcs_fields_witness:
  "path_exists (Dir (Some 6) True True [(''.git'', File (Some (30, 4)))]) ''.git'' = Inr True \<and>
   inspect_repo (open_repo demo_env (demo_path @ [''notes''])) = Inl InvalidGitRepositoryError \<and>
   get_git_info (open_repo demo_env) (demo_path @ [''notes''])
     (Dir (Some 6) True True [(''.git'', File (Some (30, 4)))]) = Inr (True, None, None) \<and>
   get_git_info (\<lambda>q. Inr demo_repo) [] (Dir (Some 6) True True [(''.git'', File (Some (30, 4)))])
     = Inr (True, None, Some NO_REMOTE) \<and>
   path (last (projr (fst (scan_for_projects demo_env demo_frames demo_path demo_tree True))))
     = demo_path @ [''notes''] \<and>
   has_git (last (projr (fst (scan_for_projects demo_env demo_frames demo_path demo_tree True)))) \<and>
   git_remote (last (projr (fst (scan_for_projects demo_env demo_frames demo_path demo_tree True)))) = None \<and>
   git_status (last (projr (fst (scan_for_projects demo_env demo_frames demo_path demo_tree True)))) = None"
proof -
  let ?notes = "Dir (Some 6) True True [(''.git'', File (Some (30, 4)))]"
  have ex: "path_exists ?notes ''.git'' = Inr True" by (simp add: path_exists_def has_entry_def)
  have vm: "vcs_marker ?notes" by (simp add: vcs_marker_def has_entry_def)
  have ins: "inspect_repo (open_repo demo_env (demo_path @ [''notes''])) = Inl InvalidGitRepositoryError"
    by (simp add: demo_env_def inspect_repo_def)
  have rm: "remotes demo_repo = Inr []" by (simp add: demo_repo_def)
  from demo_scan obtain ps tr where s:
    "scan_for_projects demo_env demo_frames demo_path demo_tree True = (Inr ps, tr)"
    "map path ps = [demo_path, demo_path @ [''lib''], demo_path @ [''locked''], demo_path @ [''notes'']]"
    by (elim exE conjE)
  from s(2) have ne: "ps \<noteq> []" by auto
  then have mem: "last ps \<in> set ps" by simp
  have pl: "path (last ps) = demo_path @ [''notes'']"
    using s(2) ne last_map [of ps path] by simp
  note t = vcs_fields [of demo_env demo_frames demo_path demo_tree True ps "last ps" ?notes
      "open_repo demo_env" "demo_path @ [''notes'']" InvalidGitRepositoryError]
  note u = vcs_fields [of demo_env demo_frames demo_path demo_tree True ps "last ps" ?notes
      "\<lambda>q. Inr demo_repo" "[]" InvalidGitRepositoryError demo_repo]
  from t ex ins have g1: "get_git_info (open_repo demo_env) (demo_path @ [''notes'']) ?notes
      = Inr (True, None, None)" by blast
  from u ex rm have g2: "get_git_info (\<lambda>q. Inr demo_repo) [] ?notes
      = Inr (True, None, Some NO_REMOTE)" by blast
  from t s(1) mem have r: "git_remote (last ps) = None \<and> git_status (last ps) = None"
    and nd: "\<exists>nd. (path (last ps), nd) \<in> set ((demo_path, demo_tree) #
                spec_walk (ignore_patterns demo_env) demo_path demo_tree) \<and>
              has_git (last ps) = vcs_marker nd"
    using ins pl by auto
  from nd have hg: "has_git (last ps)"
    unfolding demo_walk pl using vm by (auto simp: demo_path_def)
  from ex ins g1 g2 pl hg r s(1) show ?thesis by simp
qed

text \<open>
  C8: the callback is called once for every directory visited, the root among
  them, with the number of projects found so far. The source does not do this. Of
  a root that is not a project, above a project \<^verbatim>\<open>a\<close> with a subdirectory \<^verbatim>\<open>b\<close>, the
  scan lists three directories and reports two: the report of the root stands
  inside the test for a project root. And \<^verbatim>\<open>b\<close> is reported with the count 0 after
  \<^verbatim>\<open>a\<close> has been found: the count is the length of the list of the recursive call,
  which starts empty. This is so whatever the frames the scan has, three or more.
\<close>

theorem progress_reports_diverge:
  "callbacks (snd (scan_for_projects demo_env (Suc (Suc (Suc f))) [''w''] plain_tree True)) =
     [([''w'', ''a''], 0), ([''w'', ''a'', ''b''], 0)] \<and>
   found_paths (snd (scan_for_projects demo_env (Suc (Suc (Suc f))) [''w''] plain_tree True)) =
     [[''w'', ''a'']] \<and>
   scandir_paths (snd (scan_for_projects demo_env (Suc (Suc (Suc f))) [''w''] plain_tree True)) =
     [[''w''], [''w'', ''a''], [''w'', ''a'', ''b'']] \<and>
   map fst (callbacks (snd (scan_for_projects demo_env (Suc (Suc (Suc f))) [''w''] plain_tree True))) \<noteq>
     scandir_paths (snd (scan_for_projects demo_env (Suc (Suc (Suc f))) [''w''] plain_tree True)) \<and>
   \<not> counts_found_so_far
       (snd (scan_for_projects demo_env (Suc (Suc (Suc f))) [''w''] plain_tree True)) 0 \<and>
   map path (projr (fst (scan_for_projects demo_env (Suc (Suc (Suc f))) [''w''] plain_tree True))) =
     [[''w'', ''a'']]"
  by (simp add: eval_defs)

text \<open>
  C7: an error of reading a directory aborts only the subtree concerned, the scan
  never raises for it, and the walk goes on with the siblings. The source does not
  do this for a directory that cannot be searched (mode 000, say, or owned by
  another user). The existence test of \<^verbatim>\<open>is_project_directory\<close> on such a child raises
  \<^verbatim>\<open>PermissionError\<close> inside the \<^verbatim>\<open>try\<close> of the loop of its parent, which ends the loop:
  of the tree with \<^verbatim>\<open>private\<close> before the project \<^verbatim>\<open>work\<close>, the scan returns no project
  and never comes to \<^verbatim>\<open>work\<close>, which the walk of the specification has. And when
  the root of a top-level call cannot be searched, the test is outside every \<^verbatim>\<open>try\<close>
  and the scan raises. This is so whatever the frames the scan has to run in.
\<close>

theorem unsearchable_directory_cuts_walk:
  "scan_for_projects demo_env (Suc (Suc f)) [''w''] guarded_tree True =
     (Inr [], [Evaluated [''w''], Scandir [''w''],
               Callback [''w'', ''private''] 0, Evaluated [''w'', ''private'']]) \<and>
   is_project_directory (Dir (Some 3) True True [(''README.md'', File (Some (1, 1)))]) = Inr True \<and>
   [''w'', ''work''] \<notin>
     event_path ` set (snd (scan_for_projects demo_env (Suc (Suc f)) [''w''] guarded_tree True)) \<and>
   spec_walk (ignore_patterns demo_env) [''w''] guarded_tree =
     [([''w'', ''private''], Dir (Some 2) False False []),
      ([''w'', ''work''], Dir (Some 3) True True [(''README.md'', File (Some (1, 1)))])] \<and>
   scan_for_projects demo_env (Suc f) [''w''] (Dir (Some 1) False False []) True =
     (Inl OSError, [Evaluated [''w'']])"
  by (simp add: eval_defs)

subsection \<open>Errors of reading that stay local, and errors that leave the scan\<close>

lemma filenames_append: "filenames (a @ b) = filenames a @ filenames b"
  by (induction a rule: filenames.induct) simp_all

lemma os_walk_dirs_append: "os_walk_dirs f (a @ b) = os_walk_dirs f a @ os_walk_dirs f b"
proof (induction a)
  case Nil
  show ?case by simp
next
  case (Cons e a)
  obtain n d where e: "e = (n, d)" by (cases e)
  from Cons show ?case unfolding e by (cases d) (simp_all del: os_walk.simps)
qed

lemma add_sizes_append: "add_sizes (a @ b) t = add_sizes b (add_sizes a t)"
  by (induction a t rule: add_sizes.induct) simp_all

lemma unlistable_dir_walk:
  "os_walk (Suc (Suc f)) (Dir s r sx (es1 @ (n, Dir st False sx' sub) # es2)) =
   os_walk (Suc (Suc f)) (Dir s r sx (es1 @ es2))"
  by (simp add: filenames_append os_walk_dirs_append)

text \<open>A directory that cannot be listed is scanned to nothing without raising,
  and has size 0 and its own time; in an enclosing directory it adds nothing to
  the size and to the time.\<close>

lemma unreadable_units_contribute_nothing:
  "scan_for_projects c (Suc f) q (Dir st False sx sub) False = (Inr [], [Scandir q])"
  "get_directory_size (Suc f) (Dir st False sx sub) = Inr 0"
  "convertible m \<Longrightarrow> get_last_modified (Suc f) (Dir (Some m) False sx sub) = Inr m"
  "get_directory_size (Suc (Suc f)) (Dir s r sx (es1 @ (n, Dir st False sx' sub) # es2)) =
     get_directory_size (Suc (Suc f)) (Dir s r sx (es1 @ es2))"
  "get_last_modified (Suc (Suc f)) (Dir s r sx (es1 @ (n, Dir st False sx' sub) # es2)) =
     get_last_modified (Suc (Suc f)) (Dir s r sx (es1 @ es2))"
proof -
  show "scan_for_projects c (Suc f) q (Dir st False sx sub) False = (Inr [], [Scandir q])"
    by (simp add: scan_root_def)
  show "get_directory_size (Suc f) (Dir st False sx sub) = Inr 0"
    by (simp add: get_directory_size_def)
  show "convertible m \<Longrightarrow> get_last_modified (Suc f) (Dir (Some m) False sx sub) = Inr m"
    by (simp add: get_last_modified_def convertible_def)
  show "get_directory_size (Suc (Suc f)) (Dir s r sx (es1 @ (n, Dir st False sx' sub) # es2)) =
     get_directory_size (Suc (Suc f)) (Dir s r sx (es1 @ es2))"
    unfolding get_directory_size_def unlistable_dir_walk ..
  show "get_last_modified (Suc (Suc f)) (Dir s r sx (es1 @ (n, Dir st False sx' sub) # es2)) =
     get_last_modified (Suc (Suc f)) (Dir s r sx (es1 @ es2))"
    unfolding get_last_modified_def unlistable_dir_walk by simp
qed

text \<open>A file whose \<^verbatim>\<open>stat()\<close> fails adds nothing to the size.\<close>

lemma failed_file_size:
  "get_directory_size f (Dir s r sx (es1 @ (n, File None) # es2)) =
   get_directory_size f (Dir s r sx (es1 @ es2))"
  by (simp add: get_directory_size_def filenames_append os_walk_dirs_append add_sizes_append)

text \<open>A time of modification past the year 9999 makes the conversion raise
  \<^verbatim>\<open>ValueError\<close>, which no handler catches: the scan of a project that holds such a
  file raises. And a scan that has fewer frames than the tree has levels raises
  \<^verbatim>\<open>RecursionError\<close>.\<close>

lemma timestamp_out_of_range_raises:
  "fromtimestamp (1099511627776 * 1000000) = Inl ValueError"
  "fst (scan_for_projects demo_env demo_frames [''w'']
          (Dir (Some 1) True True [(''README.md'', File (Some (1, 1099511627776 * 1000000)))]) True)
     = Inl ValueError"
  "fst (scan_for_projects demo_env demo_frames [''w'']
          (Dir (Some 1) True True
             [(''a'', Dir (Some 1) True True
                 [(''README.md'', File (Some (1, 1099511627776 * 1000000)))])]) True)
     = Inl ValueError"
  by (simp_all add: eval_defs)

lemma too_deep_raises:
  "scan_for_projects c 0 p d chk = (Inl RecursionError, [])"
  "fst (scan_for_projects demo_env 2 [''w'']
          (Dir (Some 1) True True
             [(''a'', Dir (Some 1) True True [(''b'', Dir (Some 1) True True [])])]) True)
     = Inl RecursionError"
proof -
  show "scan_for_projects c 0 p d chk = (Inl RecursionError, [])" by (cases d) simp_all
  show "fst (scan_for_projects demo_env 2 [''w'']
          (Dir (Some 1) True True
             [(''a'', Dir (Some 1) True True [(''b'', Dir (Some 1) True True [])])]) True)
     = Inl RecursionError"
    by (simp add: eval_defs)
qed

text \<open>A callback that raises an \<open>OSError\<close> on a child ends the loop of the parent
  silently; any other exception, and any exception on the root, leaves the scan.\<close>

lemma raising_callback:
  "scan_for_projects (demo_env\<lparr>progress_callback := Some (\<lambda>q k. Inl OSError)\<rparr>) demo_frames
     [''w''] plain_tree True
     = (Inr [], [Evaluated [''w''], Scandir [''w''], Callback [''w'', ''a''] 0])"
  "fst (scan_for_projects (demo_env\<lparr>progress_callback := Some (\<lambda>q k. Inl OtherError)\<rparr>) demo_frames
     [''w''] plain_tree True) = Inl OtherError"
  by (simp_all add: eval_defs)

end
